theory Spec2Isabelle
  imports Complex_Main
begin

section \<open>The inertial anomaly detector\<close>

text \<open>
  Embedding of class \<open>MPUAnomalyDetector\<close> of \<open>parser.py\<close>.

  Python floats are modelled as reals: rounding, infinities and NaN are outside the
  model. The clock \<open>time.time()\<close> is an input of \<open>check_anomaly\<close>.

  The attributes \<open>baseline_pitch\<close> and \<open>baseline_roll\<close> are \<open>None\<close> together after
  \<open>__init__\<close> and are assigned together, in adjacent statements of \<open>update\<close>, and nowhere
  else; the model keeps them as one optional pair, and the test
  \<open>self.baseline_pitch is None\<close> is \<open>baseline d = None\<close>.
\<close>

record detector =
  enabled :: bool
  baseline :: "(real \<times> real) option"
  current_pitch :: real
  current_roll :: real
  last_check_time :: real
  check_interval :: real
  pitch_threshold :: real
  roll_threshold :: real
  calibration_samples :: "(real \<times> real) list"
  calibration_count :: nat

definition init_detector :: detector where
  "init_detector =
     \<lparr> enabled = True, baseline = None, current_pitch = 0, current_roll = 0,
       last_check_time = 0, check_interval = 2, pitch_threshold = 15,
       roll_threshold = 15, calibration_samples = [], calibration_count = 10 \<rparr>"

text \<open>Python's \<open>sum\<close> adds from the left, starting at 0.\<close>

definition py_sum :: "real list \<Rightarrow> real" where
  "py_sum xs = foldl (+) 0 xs"

definition update :: "detector \<Rightarrow> real \<Rightarrow> real \<Rightarrow> detector" where
  "update d pitch roll =
     (let d1 = d\<lparr>current_pitch := pitch, current_roll := roll\<rparr> in
      if baseline d1 = None then
        (let d2 = d1\<lparr>calibration_samples := calibration_samples d1 @ [(pitch, roll)]\<rparr> in
         if length (calibration_samples d2) \<ge> calibration_count d2 then
           (let avg_pitch = py_sum (map fst (calibration_samples d2))
                              / real (length (calibration_samples d2));
                avg_roll = py_sum (map snd (calibration_samples d2))
                              / real (length (calibration_samples d2))
            in d2\<lparr>baseline := Some (avg_pitch, avg_roll)\<rparr>)
         else d2)
      else d1)"

text \<open>
  \<open>check_anomaly d current_time\<close> returns the answer and the detector after the call.
  \<open>compares d current_time\<close> is the path condition of reaching the assignment to
  \<open>last_check_time\<close> and the comparison with the baseline.
\<close>

definition compares :: "detector \<Rightarrow> real \<Rightarrow> bool" where
  "compares d current_time =
     (enabled d \<and> baseline d \<noteq> None
      \<and> \<not> current_time - last_check_time d < check_interval d)"

definition check_anomaly :: "detector \<Rightarrow> real \<Rightarrow> bool \<times> detector" where
  "check_anomaly d current_time =
     (case baseline d of
        None \<Rightarrow> (False, d)
      | Some (bp, br) \<Rightarrow>
          if \<not> enabled d then (False, d)
          else if current_time - last_check_time d < check_interval d then (False, d)
          else
            (let d' = d\<lparr>last_check_time := current_time\<rparr>;
                 pitch_change = \<bar>current_pitch d' - bp\<bar>;
                 roll_change = \<bar>current_roll d' - br\<bar>
             in if pitch_change > pitch_threshold d' \<or> roll_change > roll_threshold d'
                then (True, d') else (False, d')))"

text \<open>
  A history of calls on the detector: \<open>run d evs\<close> performs them in order and returns
  the final detector with the answers of the check calls, in order.
\<close>

datatype event = Update real real | Check real

fun run :: "detector \<Rightarrow> event list \<Rightarrow> detector \<times> bool list" where
  "run d [] = (d, [])"
| "run d (Update p r # evs) = run (update d p r) evs"
| "run d (Check t # evs) =
     (let res = check_anomaly d t; rest = run (snd res) evs
      in (fst rest, fst res # snd rest))"

fun samples_of :: "event list \<Rightarrow> (real \<times> real) list" where
  "samples_of [] = []"
| "samples_of (Update p r # evs) = (p, r) # samples_of evs"
| "samples_of (Check t # evs) = samples_of evs"

fun check_times :: "event list \<Rightarrow> real list" where
  "check_times [] = []"
| "check_times (Update p r # evs) = check_times evs"
| "check_times (Check t # evs) = t # check_times evs"

definition armed :: "detector \<Rightarrow> bool" where
  "armed d = (baseline d \<noteq> None)"

text \<open>The detector states the program can reach: \<open>__init__\<close>, then any calls.\<close>

definition state_after :: "event list \<Rightarrow> detector" where
  "state_after evs = fst (run init_detector evs)"

text \<open>
  Sample histories: ten updates with the device at rest; then the device tilted by 40
  degrees and a check at time 100.
\<close>

definition calib10 :: "event list" where
  "calib10 = replicate 10 (Update 1 2)"

definition hist1 :: "event list" where
  "hist1 = calib10 @ [Update 41 2, Check 100]"

text \<open>
  Ten different samples followed by an eleventh update; nine samples followed by a
  check; and three calls made in the window from 102 to 104.
\<close>

definition hist2 :: "event list" where
  "hist2 = [Update 1 2, Update 2 4, Update 3 6, Update 4 8, Update 5 10,
            Update 6 12, Update 7 14, Update 8 16, Update 9 18, Update 10 20,
            Update 90 90]"

definition hist3 :: "event list" where
  "hist3 = replicate 8 (Update 1 2) @ [Update 80 2, Check 100]"

definition burst :: "event list" where
  "burst = [Check 102, Update 50 2, Check 103, Check (207 / 2)]"

definition mean_of :: "(real \<times> real) list \<Rightarrow> real \<times> real" where
  "mean_of s =
     (sum_list (map fst s) / real (length s), sum_list (map snd s) / real (length s))"

section \<open>The controller: packet decoder, key mapping, receiver\<close>

text \<open>
  Embedding of class \<open>VirtualKeyboard\<close>. Text is a \<open>string\<close>; where the source reads
  characters by class (digits, white space) the model covers ASCII text.
\<close>

definition UDP_PORT :: nat where
  "UDP_PORT = 4200"

definition THRESHOLD_LOW :: int where
  "THRESHOLD_LOW = 1000"

definition THRESHOLD_HIGH :: int where
  "THRESHOLD_HIGH = 3000"

text \<open>
  The received bytes, by what \<open>data.decode('utf-8')\<close> makes of them: the text, or a
  \<open>UnicodeDecodeError\<close> (which is a \<open>ValueError\<close>).
\<close>

datatype decoded = UnicodeDecodeError | Str string

text \<open>
  The conversions \<open>int(s)\<close> and \<open>float(s)\<close> of Python are parameters of the decoder; the
  value \<open>None\<close> stands for the \<open>ValueError\<close> they raise on text they do not accept.
\<close>

record conv =
  int_of :: "string \<Rightarrow> int option"
  float_of :: "string \<Rightarrow> real option"

text \<open>\<open>s.split(c)\<close> for a separator of one character: one more part than separators.\<close>

fun split_on :: "char \<Rightarrow> string \<Rightarrow> string list" where
  "split_on c [] = [[]]"
| "split_on c (x # xs) =
     (if x = c then [] # split_on c xs
      else (case split_on c xs of [] \<Rightarrow> [[x]] | p # ps \<Rightarrow> (x # p) # ps))"

record frame =
  x_val :: int
  y_val :: int
  sw_pressed :: bool
  btn_up :: bool
  btn_left :: bool
  btn_down :: bool
  btn_right :: bool
  pitch :: real
  roll :: real

text \<open>
  The decoding part of \<open>_process_data\<close>: \<open>None\<close> when the function leaves by
  \<open>return\<close> on the field count or by the handler of \<open>ValueError\<close>. The fields are converted
  in the order of the source; all conversions come before any effect.
\<close>

definition parse_fields :: "conv \<Rightarrow> string list \<Rightarrow> frame option" where
  "parse_fields cv parts =
     (case int_of cv (parts ! 0) of None \<Rightarrow> None | Some x \<Rightarrow>
      case int_of cv (parts ! 1) of None \<Rightarrow> None | Some y \<Rightarrow>
      case float_of cv (parts ! 7) of None \<Rightarrow> None | Some p \<Rightarrow>
      case float_of cv (parts ! 8) of None \<Rightarrow> None | Some r \<Rightarrow>
        Some \<lparr> x_val = x, y_val = y,
               sw_pressed = (parts ! 2 = ''1''),
               btn_up = (parts ! 3 = ''1''),
               btn_left = (parts ! 4 = ''1''),
               btn_down = (parts ! 5 = ''1''),
               btn_right = (parts ! 6 = ''1''),
               pitch = p, roll = r \<rparr>)"

definition decode_frame :: "conv \<Rightarrow> decoded \<Rightarrow> frame option" where
  "decode_frame cv data =
     (case data of
        UnicodeDecodeError \<Rightarrow> None
      | Str s \<Rightarrow>
          (let parts = split_on CHR '','' s in
           if length parts \<noteq> 9 then None else parse_fields cv parts))"

text \<open>What the virtual device receives: \<open>keyboard.write(e.EV_KEY, k, v)\<close> and \<open>syn()\<close>.\<close>

datatype key = KEY_UP | KEY_DOWN | KEY_LEFT | KEY_RIGHT | KEY_ENTER | KEY_SPACE

datatype dev_event = Write key int | Syn

definition key_writes :: "frame \<Rightarrow> dev_event list" where
  "key_writes fr =
     (let key_right = (x_val fr < THRESHOLD_LOW) \<or> btn_right fr;
          key_left = (x_val fr > THRESHOLD_HIGH) \<or> btn_left fr;
          key_down = (y_val fr > THRESHOLD_HIGH) \<or> btn_down fr;
          is_up_active = (y_val fr < THRESHOLD_LOW) \<or> btn_up fr;
          key_enter = sw_pressed fr
      in [Write KEY_RIGHT (if key_right then 1 else 0),
          Write KEY_LEFT (if key_left then 1 else 0),
          Write KEY_DOWN (if key_down then 1 else 0),
          Write KEY_ENTER (if key_enter then 1 else 0),
          Write KEY_UP (if is_up_active then 1 else 0),
          Write KEY_SPACE (if is_up_active then 1 else 0),
          Syn])"

text \<open>
  \<open>_process_data\<close> on the shared detector and the device: a payload that does not decode
  changes neither; a frame updates the detector and then writes the six keys.
\<close>

definition process_data ::
  "conv \<Rightarrow> detector \<times> dev_event list \<Rightarrow> decoded \<Rightarrow> detector \<times> dev_event list" where
  "process_data cv st data =
     (case decode_frame cv data of
        None \<Rightarrow> st
      | Some fr \<Rightarrow> (update (fst st) (pitch fr) (roll fr), snd st @ key_writes fr))"

text \<open>The state of a key on the device: the value of the last write to it.\<close>

fun key_value :: "key \<Rightarrow> dev_event list \<Rightarrow> int option" where
  "key_value k [] = None"
| "key_value k (Syn # evs) = key_value k evs"
| "key_value k (Write k' v # evs) =
     (case key_value k evs of Some w \<Rightarrow> Some w | None \<Rightarrow> if k' = k then Some v else None)"

definition pressed :: "key \<Rightarrow> dev_event list \<Rightarrow> bool" where
  "pressed k evs = (key_value k evs = Some 1)"

text \<open>
  Construction and start. The host says whether \<open>evdev\<close> was imported, whether
  \<open>UInput(...)\<close> succeeds and whether the port can be bound. \<open>start\<close> returns the object
  and whether it created the receiver thread.
\<close>

record host =
  EVDEV_AVAILABLE :: bool
  uinput_opens :: bool
  bind_succeeds :: bool

datatype uinput = UInput string

datatype socket = Unbound | Bound nat

record virtual_keyboard =
  keyboard :: "uinput option"
  sock :: "socket option"
  running :: bool

definition vk_init :: "host \<Rightarrow> virtual_keyboard" where
  "vk_init h =
     (let vk = \<lparr> keyboard = None, sock = None, running = False \<rparr> in
      if \<not> EVDEV_AVAILABLE h then vk
      else if uinput_opens h then vk\<lparr>keyboard := Some (UInput ''NotPortable_Controller'')\<rparr>
      else vk)"

definition start :: "host \<Rightarrow> virtual_keyboard \<Rightarrow> virtual_keyboard \<times> bool" where
  "start h vk =
     (if \<not> EVDEV_AVAILABLE h \<or> keyboard vk = None then (vk, False)
      else if bind_succeeds h then (vk\<lparr>sock := Some (Bound UDP_PORT), running := True\<rparr>, True)
      else (vk\<lparr>sock := Some Unbound\<rparr>, False))"

text \<open>
  The receiver thread, over the outcomes of \<open>recvfrom\<close> until \<open>stop\<close> clears \<open>running\<close>:
  a datagram is processed, a timeout re-loops, another error is printed.
\<close>

datatype recv = Datagram decoded | SocketTimeout | SocketError

fun receive_loop ::
  "conv \<Rightarrow> detector \<times> dev_event list \<Rightarrow> recv list \<Rightarrow> detector \<times> dev_event list" where
  "receive_loop cv st [] = st"
| "receive_loop cv st (Datagram data # rs) = receive_loop cv (process_data cv st data) rs"
| "receive_loop cv st (SocketTimeout # rs) = receive_loop cv st rs"
| "receive_loop cv st (SocketError # rs) = receive_loop cv st rs"

text \<open>
  The controller side of \<open>main\<close>: \<open>keyboard = VirtualKeyboard(); keyboard.start()\<close>, with
  the receiver thread, if it was created, running over the arriving datagrams.
\<close>

definition controller ::
  "host \<Rightarrow> conv \<Rightarrow> detector \<Rightarrow> recv list \<Rightarrow> detector \<times> dev_event list" where
  "controller h cv d rs =
     (let (vk, started) = start h (vk_init h) in
      if started then receive_loop cv (d, []) rs else (d, []))"

text \<open>
  Decimal readings. On text of ASCII digits \<open>int\<close> returns \<open>nat_of_digits\<close>; on text
  of ASCII digits and points \<open>float\<close> accepts exactly the texts with at most one point
  and at least one digit, and \<open>dec_float\<close> is its value before rounding. \<open>dec_conv\<close>
  serves as the conversions of the decoder in the examples.
\<close>

definition is_digit :: "char \<Rightarrow> bool" where
  "is_digit c = (48 \<le> (of_char c :: nat) \<and> (of_char c :: nat) \<le> 57)"

definition digit_val :: "char \<Rightarrow> nat" where
  "digit_val c = of_char c - 48"

definition nat_of_digits :: "string \<Rightarrow> nat" where
  "nat_of_digits s = foldl (\<lambda>a c. 10 * a + digit_val c) 0 s"

definition dec_int :: "string \<Rightarrow> int option" where
  "dec_int s = (if s \<noteq> [] \<and> list_all is_digit s then Some (int (nat_of_digits s)) else None)"

definition dec_float :: "string \<Rightarrow> real option" where
  "dec_float s =
     (let ip = takeWhile is_digit s; rest = dropWhile is_digit s;
          fp = (case rest of [] \<Rightarrow> [] | c # cs \<Rightarrow> cs)
      in if (rest = [] \<or> hd rest = CHR ''.'') \<and> list_all is_digit fp \<and> ip @ fp \<noteq> []
         then Some (real (nat_of_digits ip) + real (nat_of_digits fp) / 10 ^ length fp)
         else None)"

definition dec_conv :: conv where
  "dec_conv = \<lparr> int_of = dec_int, float_of = dec_float \<rparr>"

definition good_host :: host where
  "good_host = \<lparr> EVDEV_AVAILABLE = True, uinput_opens = True, bind_succeeds = True \<rparr>"

definition no_device_host :: host where
  "no_device_host = \<lparr> EVDEV_AVAILABLE = True, uinput_opens = False, bind_succeeds = True \<rparr>"

definition pkt1 :: decoded where
  "pkt1 = Str ''999,1000,0,0,0,0,0,1.5,2''"

definition pkt2 :: decoded where
  "pkt2 = Str ''1000,3001,1,0,1,0,0,1.5,2''"

definition frame_of :: "int \<Rightarrow> int \<Rightarrow> frame" where
  "frame_of x y =
     \<lparr> x_val = x, y_val = y, sw_pressed = False, btn_up = False, btn_left = False,
       btn_down = False, btn_right = False, pitch = 0, roll = 0 \<rparr>"

section \<open>The score-file parsers\<close>

text \<open>
  Embedding of \<open>parse_neverball_log\<close> and \<open>parse_etr_log\<close>. The text of a file is
  ASCII. A double is the real number it stands for, and the rounding of a real number to
  the nearest double is a parameter \<open>rd\<close> of the parsers: a conversion to float and a
  division of floats round their exact result with it. The lines the parsers print are
  not modelled. A file does not change during a pass.

  A record is the Python dictionary the parser appends: its keys, in the order of the
  dictionary display, with their values.
\<close>

datatype pyval = VStr string | VInt int | VBool bool

type_synonym log = "(string \<times> pyval) list"

datatype py_error = IOError | OverflowError | ValueError

text \<open>
  A score file is absent (\<open>os.path.exists\<close> is false), or it has a modification time
  and either cannot be read (\<open>open\<close> or \<open>readlines\<close> raises) or yields the lines
  that \<open>readlines\<close> returns.
\<close>

datatype content = Unreadable | Lines "string list"

record score_file =
  mtime :: real
  content :: content

text \<open>
  The parsers call \<open>mpu_detector.check_anomaly()\<close> once for each record. Their state is
  the detector and the number of clock readings made so far; \<open>clock k\<close> is the value of
  the \<open>k\<close>-th reading of \<open>time.time()\<close>.
\<close>

type_synonym sensor = "detector \<times> nat"

definition check_now :: "(nat \<Rightarrow> real) \<Rightarrow> sensor \<Rightarrow> bool \<times> sensor" where
  "check_now clock st =
     (let res = check_anomaly (fst st) (clock (snd st)) in (fst res, (snd res, Suc (snd st))))"

text \<open>White space as \<open>str.strip\<close> and the class \<open>\s\<close> read it, on ASCII.\<close>

definition is_space :: "char \<Rightarrow> bool" where
  "is_space c = ((9 \<le> (of_char c :: nat) \<and> (of_char c :: nat) \<le> 13)
                 \<or> (28 \<le> (of_char c :: nat) \<and> (of_char c :: nat) \<le> 32))"

definition strip :: "string \<Rightarrow> string" where
  "strip s = rev (dropWhile is_space (rev (dropWhile is_space s)))"

text \<open>
  \<open>re.match(r'^(\d+)\s+(\d+)\s+(\S+)$', line)\<close>. The classes of neighbouring parts are
  disjoint, so each greedy part is the longest run of its class and no backtracking can
  find another match; \<open>$\<close> matches at the end or before a final newline.
\<close>

definition match_neverball :: "string \<Rightarrow> (string \<times> string \<times> string) option" where
  "match_neverball line =
     (let time_ms = takeWhile is_digit line; r1 = dropWhile is_digit line;
          w1 = takeWhile is_space r1; r2 = dropWhile is_space r1;
          coins = takeWhile is_digit r2; r3 = dropWhile is_digit r2;
          w2 = takeWhile is_space r3; r4 = dropWhile is_space r3;
          username = takeWhile (\<lambda>c. \<not> is_space c) r4;
          r5 = dropWhile (\<lambda>c. \<not> is_space c) r4
      in if time_ms \<noteq> [] \<and> w1 \<noteq> [] \<and> coins \<noteq> [] \<and> w2 \<noteq> [] \<and> username \<noteq> []
            \<and> (r5 = [] \<or> r5 = [CHR 0x0A])
         then Some (time_ms, coins, username) else None)"

text \<open>
  The least integer that \<open>int / float\<close> cannot convert to a double: the conversion
  rounds to nearest, and from \<open>2^1024 - 2^970\<close> on the result would be \<open>2^1024\<close>; Python
  raises \<open>OverflowError\<close>. A decimal text of such a value converts by \<open>float\<close> to infinity.
\<close>

definition float_limit :: nat where
  "float_limit = 2 ^ 1024 - 2 ^ 970"

text \<open>
  \<open>int(s)\<close> on a text of ASCII digits. From Python 3.11 on \<open>int\<close> raises \<open>ValueError\<close> on
  a text of more than \<open>sys.int_max_str_digits\<close> digits, 4300 unless it is changed (the
  program does not change it); leading zeros count.
\<close>

definition int_max_str_digits :: nat where
  "int_max_str_digits = 4300"

definition py_int :: "string \<Rightarrow> py_error + nat" where
  "py_int s = (if int_max_str_digits < length s then Inl ValueError else Inr (nat_of_digits s))"

text \<open>
  What the theorems use of the rounding to the nearest double: it leaves the integers
  from 0 to \<open>2^53\<close> as they are, it is monotone, and in the range of the normal doubles
  the error is at most the \<open>2^53\<close>-th part of the number. \<open>exact\<close>, which rounds nothing,
  has these properties and serves in the examples, on values that are doubles.
\<close>

definition double_rounding :: "(real \<Rightarrow> real) \<Rightarrow> bool" where
  "double_rounding rd =
     ((\<forall>n::nat. n \<le> 2 ^ 53 \<longrightarrow> rd (real n) = real n)
      \<and> (\<forall>x y. x \<le> y \<longrightarrow> rd x \<le> rd y)
      \<and> (\<forall>y. 1 / 2 ^ 1022 \<le> y \<and> y \<le> 2 ^ 1023 \<longrightarrow> \<bar>rd y - y\<bar> \<le> y / 2 ^ 53))"

definition exact :: "real \<Rightarrow> real" where
  "exact x = x"

text \<open>Decimal digits of a natural number, and the formats \<open>02d\<close> and \<open>05.2f\<close>.\<close>

fun digits_of :: "nat \<Rightarrow> string" where
  "digits_of n =
     (if n < 10 then [''0123456789'' ! n]
      else digits_of (n div 10) @ [''0123456789'' ! (n mod 10)])"

declare digits_of.simps [simp del]

definition zfill :: "nat \<Rightarrow> string \<Rightarrow> string" where
  "zfill w s = replicate (w - length s) CHR ''0'' @ s"

definition fmt_02d :: "int \<Rightarrow> string" where
  "fmt_02d n = (if n < 0 then CHR ''-'' # zfill 1 (digits_of (nat (- n)))
                else zfill 2 (digits_of (nat n)))"

text \<open>
  Floor division and remainder of Python floats, for a dividend that is not negative and
  a positive divisor, as \<open>floatobject.c\<close> computes them: \<open>fmod\<close> is exact; the quotient
  \<open>div\<close> is \<open>(vx - mod) / wx\<close>, where the difference and the division round (\<open>md\<close> and
  \<open>dv\<close> below); its floor is raised by one if the quotient lies more than a half above
  it, and the fractional part of a double is a double, so this difference does not round.
  The remainder is \<open>fmod\<close>. Then \<open>int\<close> of a float.
\<close>

definition py_fmod :: "real \<Rightarrow> real \<Rightarrow> real" where
  "py_fmod vx wx = vx - wx * of_int \<lfloor>vx / wx\<rfloor>"

definition py_floordiv :: "(real \<Rightarrow> real) \<Rightarrow> real \<Rightarrow> real \<Rightarrow> real" where
  "py_floordiv rd vx wx =
     (let md = py_fmod vx wx;
          dv = rd (rd (vx - md) / wx);
          floordiv = of_int \<lfloor>dv\<rfloor>
      in if dv - floordiv > 1 / 2 then floordiv + 1 else floordiv)"

definition py_mod :: "real \<Rightarrow> real \<Rightarrow> real" where
  "py_mod vx wx = py_fmod vx wx"

definition py_trunc :: "real \<Rightarrow> int" where
  "py_trunc x = (if 0 \<le> x then \<lfloor>x\<rfloor> else \<lceil>x\<rceil>)"

text \<open>
  The time text of a Neverball record, from \<open>int(time_ms)\<close>:
  \<open>time_sec = int(time_ms) / 100.0\<close> converts the integer to a double and divides, then
  minutes and seconds.
\<close>

definition neverball_time :: "(real \<Rightarrow> real) \<Rightarrow> nat \<Rightarrow> py_error + string" where
  "neverball_time rd t =
     (if float_limit \<le> t then Inl OverflowError
      else
        (let time_sec = rd (rd (real t) / 100);
             minutes = py_trunc (py_floordiv rd time_sec 60);
             seconds = py_trunc (py_mod time_sec 60)
         in Inr (fmt_02d minutes @ '':'' @ fmt_02d seconds)))"

definition neverball_record :: "string \<Rightarrow> nat \<Rightarrow> nat \<Rightarrow> string \<Rightarrow> bool \<Rightarrow> log" where
  "neverball_record username time_ms coins time_str is_anomaly =
     [(''username'', VStr username), (''level'', VInt 1), (''score'', VInt (int time_ms)),
      (''coins'', VInt (int coins)), (''time'', VStr time_str),
      (''is_anomaly'', VBool is_anomaly)]"

text \<open>
  The statements of the loop body between the test of the placeholder names and the test
  for a duplicate: \<open>int(time_ms)\<close>, the time text, \<open>int(coins)\<close>. They yield the key of
  the record and its time text, or the exception that leaves the \<open>try\<close> block.
\<close>

definition neverball_entry ::
  "(real \<Rightarrow> real) \<Rightarrow> string \<Rightarrow> string \<Rightarrow> string
     \<Rightarrow> py_error + ((string \<times> nat \<times> nat) \<times> string)" where
  "neverball_entry rd time_ms coins username =
     (case py_int time_ms of
        Inl err \<Rightarrow> Inl err
      | Inr t \<Rightarrow>
          (case neverball_time rd t of
             Inl err \<Rightarrow> Inl err
           | Inr time_str \<Rightarrow>
               (case py_int coins of
                  Inl err \<Rightarrow> Inl err
                | Inr c \<Rightarrow> Inr ((username, t, c), time_str))))"

text \<open>
  The loop over the lines, with the records so far and the set \<open>seen_records\<close>. It ends
  with the exception that leaves the \<open>try\<close> block, or with the records.
\<close>

fun neverball_loop ::
  "(real \<Rightarrow> real) \<Rightarrow> (nat \<Rightarrow> real) \<Rightarrow> string list \<Rightarrow> log list
     \<Rightarrow> (string \<times> nat \<times> nat) set \<Rightarrow> sensor \<Rightarrow> (py_error + log list) \<times> sensor" where
  "neverball_loop rd clock [] logs seen_records st = (Inr logs, st)"
| "neverball_loop rd clock (line # lines) logs seen_records st =
     (case match_neverball (strip line) of
        None \<Rightarrow> neverball_loop rd clock lines logs seen_records st
      | Some (time_ms, coins, username) \<Rightarrow>
          if username \<in> {''Hard'', ''Medium'', ''Easy''}
          then neverball_loop rd clock lines logs seen_records st
          else
            (case neverball_entry rd time_ms coins username of
               Inl err \<Rightarrow> (Inl err, st)
             | Inr (record_key, time_str) \<Rightarrow>
                 if record_key \<in> seen_records
                 then neverball_loop rd clock lines logs seen_records st
                 else
                   (let res = check_now clock st in
                    neverball_loop rd clock lines
                      (logs @ [neverball_record username (fst (snd record_key))
                                 (snd (snd record_key)) time_str (fst res)])
                      (insert record_key seen_records) (snd res))))"

text \<open>The \<open>try\<close> block of a parser on an existing file, and the whole function.\<close>

definition neverball_try ::
  "(real \<Rightarrow> real) \<Rightarrow> (nat \<Rightarrow> real) \<Rightarrow> score_file \<Rightarrow> sensor
     \<Rightarrow> (py_error + log list) \<times> sensor" where
  "neverball_try rd clock f st =
     (case content f of
        Unreadable \<Rightarrow> (Inl IOError, st)
      | Lines lines \<Rightarrow> neverball_loop rd clock lines [] {} st)"

definition parse_neverball_log ::
  "(real \<Rightarrow> real) \<Rightarrow> (nat \<Rightarrow> real) \<Rightarrow> score_file option \<Rightarrow> sensor
     \<Rightarrow> log list \<times> sensor" where
  "parse_neverball_log rd clock fo st =
     (case fo of
        None \<Rightarrow> ([], st)
      | Some f \<Rightarrow>
          (case neverball_try rd clock f st of
             (Inl err, st') \<Rightarrow> ([], st')
           | (Inr logs, st') \<Rightarrow> (logs, st')))"

text \<open>
  Notions for stating what a Neverball pass extracts. \<open>line_key\<close> is the key
  \<open>(username, int(time_ms), int(coins))\<close> of a line that matches and does not carry a
  placeholder name; \<open>accepted\<close> lists the keys of such lines in file order;
  \<open>first_seen\<close> keeps the first occurrence of each key; \<open>is_record_of rd k l\<close> says that
  \<open>l\<close> is the record of key \<open>k\<close>, with the time text the program computes, whatever its
  anomaly flag; \<open>time_text\<close> is the time text in exact arithmetic. A line aborts the pass
  when it matches, carries no placeholder name, and has a time or a number of coins of
  more digits than \<open>int\<close> converts, or a time that no double holds.
\<close>

definition line_key :: "string \<Rightarrow> (string \<times> nat \<times> nat) option" where
  "line_key line =
     (case match_neverball (strip line) of
        None \<Rightarrow> None
      | Some (time_ms, coins, username) \<Rightarrow>
          if username \<in> {''Hard'', ''Medium'', ''Easy''} then None
          else Some (username, nat_of_digits time_ms, nat_of_digits coins))"

definition accepted :: "string list \<Rightarrow> (string \<times> nat \<times> nat) list" where
  "accepted lines = List.map_filter line_key lines"

fun first_seen :: "'a set \<Rightarrow> 'a list \<Rightarrow> 'a list" where
  "first_seen seen [] = []"
| "first_seen seen (x # xs) =
     (if x \<in> seen then first_seen seen xs else x # first_seen (insert x seen) xs)"

definition time_text :: "nat \<Rightarrow> string" where
  "time_text t = fmt_02d (int (t div 6000)) @ '':'' @ fmt_02d (int ((t div 100) mod 60))"

definition is_record_of :: "(real \<Rightarrow> real) \<Rightarrow> string \<times> nat \<times> nat \<Rightarrow> log \<Rightarrow> bool" where
  "is_record_of rd k l =
     (\<exists>b time_str. neverball_time rd (fst (snd k)) = Inr time_str
        \<and> l = neverball_record (fst k) (fst (snd k)) (snd (snd k)) time_str b)"

definition line_aborts :: "string \<Rightarrow> bool" where
  "line_aborts line =
     (case match_neverball (strip line) of
        None \<Rightarrow> False
      | Some (time_ms, coins, username) \<Rightarrow>
          username \<notin> {''Hard'', ''Medium'', ''Easy''}
          \<and> (int_max_str_digits < length time_ms
               \<or> float_limit \<le> nat_of_digits time_ms
               \<or> int_max_str_digits < length coins))"

definition aborts :: "string list \<Rightarrow> bool" where
  "aborts lines = list_ex line_aborts lines"

text \<open>Sample files: a line with a time of \<open>10^309\<close> centiseconds, and a small score file.\<close>

definition big_line :: string where
  "big_line = ''1'' @ replicate 309 CHR ''0'' @ '' 5 bob''"

definition scores1 :: "string list" where
  "scores1 = [''1234 56 alice'', ''999 1 Easy'', ''1234 56 alice'', ''no score here'']"

definition clock0 :: "nat \<Rightarrow> real" where
  "clock0 k = 100 + real k"

definition scores2 :: "string list" where
  "scores2 = [''1234 56 alice'', ''1234 56 alice'', big_line]"

text \<open>
  The Extreme Tux Racer parser. \<open>search_tag tag cls line\<close> is
  \<open>re.search(r'\[tag\]\s+(C+)', line)\<close> for a class \<open>C\<close> that holds no white space, and
  returns group 1: the search tries each position from the left; at a position the tag
  must be followed by white space, and the group is the longest run of the class after
  the longest run of white space (a shorter run of white space would be followed by
  white space, which is not in the class).
\<close>

definition match_tag_here :: "string \<Rightarrow> (char \<Rightarrow> bool) \<Rightarrow> string \<Rightarrow> string option" where
  "match_tag_here tag cls s =
     (if take (length tag) s = tag then
        (let r = drop (length tag) s;
             w = takeWhile is_space r;
             v = takeWhile cls (dropWhile is_space r)
         in if w \<noteq> [] \<and> v \<noteq> [] then Some v else None)
      else None)"

fun search_tag :: "string \<Rightarrow> (char \<Rightarrow> bool) \<Rightarrow> string \<Rightarrow> string option" where
  "search_tag tag cls [] = None"
| "search_tag tag cls (x # xs) =
     (case match_tag_here tag cls (x # xs) of
        Some v \<Rightarrow> Some v
      | None \<Rightarrow> search_tag tag cls xs)"

definition non_space :: "char \<Rightarrow> bool" where
  "non_space c = (\<not> is_space c)"

definition digit_or_point :: "char \<Rightarrow> bool" where
  "digit_or_point c = (is_digit c \<or> c = CHR ''.'')"

text \<open>The five searches of a line; \<open>None\<close> when \<open>all([...])\<close> is false.\<close>

definition etr_match :: "string \<Rightarrow> (string \<times> string \<times> string \<times> string \<times> string) option" where
  "etr_match line =
     (case search_tag ''[course]'' non_space line of None \<Rightarrow> None | Some course \<Rightarrow>
      case search_tag ''[plyr]'' non_space line of None \<Rightarrow> None | Some plyr \<Rightarrow>
      case search_tag ''[pts]'' is_digit line of None \<Rightarrow> None | Some pts \<Rightarrow>
      case search_tag ''[herr]'' is_digit line of None \<Rightarrow> None | Some herr \<Rightarrow>
      case search_tag ''[time]'' digit_or_point line of None \<Rightarrow> None | Some tm \<Rightarrow>
        Some (course, plyr, pts, herr, tm))"

definition replace_underscores :: "string \<Rightarrow> string" where
  "replace_underscores s = map (\<lambda>c. if c = CHR ''_'' then CHR '' '' else c) s"

text \<open>
  The format \<open>05.2f\<close> of a double that is not negative: its exact value rounded to two
  decimal places, half to even, and padded with zeros to five characters.
\<close>

definition round_half_even :: "real \<Rightarrow> int" where
  "round_half_even x =
     (if x - of_int \<lfloor>x\<rfloor> < 1 / 2 then \<lfloor>x\<rfloor>
      else if 1 / 2 < x - of_int \<lfloor>x\<rfloor> then \<lfloor>x\<rfloor> + 1
      else if even \<lfloor>x\<rfloor> then \<lfloor>x\<rfloor> else \<lfloor>x\<rfloor> + 1)"

definition fmt_05_2f :: "real \<Rightarrow> string" where
  "fmt_05_2f x =
     (let q = nat (round_half_even (x * 100))
      in zfill 5 (digits_of (q div 100) @ ''.'' @ zfill 2 (digits_of (q mod 100))))"

text \<open>
  The time text of a racer record, from group 1 of the time search. On text of digits
  and points \<open>float\<close> raises \<open>ValueError\<close> unless there is at most one point and at least
  one digit; otherwise it returns the double nearest to the decimal value, \<open>dec_float\<close>
  rounded. A value from \<open>float_limit\<close> on converts to infinity; then \<open>time_sec // 60\<close> is
  not a number and \<open>int\<close> raises \<open>ValueError\<close>.
\<close>

definition etr_time :: "(real \<Rightarrow> real) \<Rightarrow> string \<Rightarrow> py_error + string" where
  "etr_time rd tm =
     (case dec_float tm of
        None \<Rightarrow> Inl ValueError
      | Some v \<Rightarrow>
          if real float_limit \<le> v then Inl ValueError
          else
            (let time_sec = rd v;
                 minutes = py_trunc (py_floordiv rd time_sec 60);
                 seconds = py_mod time_sec 60
             in Inr (fmt_02d minutes @ '':'' @ fmt_05_2f seconds)))"

definition etr_record ::
  "string \<Rightarrow> string \<Rightarrow> nat \<Rightarrow> nat \<Rightarrow> string \<Rightarrow> bool \<Rightarrow> log" where
  "etr_record username course score herring time_str is_anomaly =
     [(''username'', VStr username), (''course'', VStr course), (''score'', VInt (int score)),
      (''herring'', VInt (int herring)), (''time'', VStr time_str),
      (''is_anomaly'', VBool is_anomaly)]"

text \<open>
  The conversions of the loop body, in the order of the source: \<open>int\<close> of the points,
  \<open>int\<close> of the herring, the time text. They yield the three values, or the exception
  that leaves the \<open>try\<close> block.
\<close>

definition etr_entry ::
  "(real \<Rightarrow> real) \<Rightarrow> string \<Rightarrow> string \<Rightarrow> string \<Rightarrow> py_error + (nat \<times> nat \<times> string)" where
  "etr_entry rd pts herr tm =
     (case py_int pts of
        Inl err \<Rightarrow> Inl err
      | Inr score \<Rightarrow>
          (case py_int herr of
             Inl err \<Rightarrow> Inl err
           | Inr herring \<Rightarrow>
               (case etr_time rd tm of
                  Inl err \<Rightarrow> Inl err
                | Inr time_str \<Rightarrow> Inr (score, herring, time_str))))"

fun etr_loop ::
  "(real \<Rightarrow> real) \<Rightarrow> (nat \<Rightarrow> real) \<Rightarrow> string list \<Rightarrow> log list \<Rightarrow> sensor
     \<Rightarrow> (py_error + log list) \<times> sensor" where
  "etr_loop rd clock [] logs st = (Inr logs, st)"
| "etr_loop rd clock (line # lines) logs st =
     (case etr_match line of
        None \<Rightarrow> etr_loop rd clock lines logs st
      | Some (course, plyr, pts, herr, tm) \<Rightarrow>
          (case etr_entry rd pts herr tm of
             Inl err \<Rightarrow> (Inl err, st)
           | Inr (score, herring, time_str) \<Rightarrow>
               (let res = check_now clock st in
                etr_loop rd clock lines
                  (logs @ [etr_record plyr (replace_underscores course) score herring
                             time_str (fst res)])
                  (snd res))))"

definition etr_try ::
  "(real \<Rightarrow> real) \<Rightarrow> (nat \<Rightarrow> real) \<Rightarrow> score_file \<Rightarrow> sensor
     \<Rightarrow> (py_error + log list) \<times> sensor" where
  "etr_try rd clock f st =
     (case content f of
        Unreadable \<Rightarrow> (Inl IOError, st)
      | Lines lines \<Rightarrow> etr_loop rd clock lines [] st)"

definition parse_etr_log ::
  "(real \<Rightarrow> real) \<Rightarrow> (nat \<Rightarrow> real) \<Rightarrow> score_file option \<Rightarrow> sensor
     \<Rightarrow> log list \<times> sensor" where
  "parse_etr_log rd clock fo st =
     (case fo of
        None \<Rightarrow> ([], st)
      | Some f \<Rightarrow>
          (case etr_try rd clock f st of
             (Inl err, st') \<Rightarrow> ([], st')
           | (Inr logs, st') \<Rightarrow> (logs, st')))"

text \<open>
  Notions for stating what a racer pass extracts: the record of a line whose five
  searches succeed, whatever its anomaly flag; the lines that abort the pass, which are
  those with all five tags and a number of points or herring of more digits than \<open>int\<close>
  converts, or a time text that \<open>float\<close> rejects or that no double holds.
\<close>

definition is_etr_record_of ::
  "(real \<Rightarrow> real) \<Rightarrow> string \<times> string \<times> string \<times> string \<times> string \<Rightarrow> log \<Rightarrow> bool" where
  "is_etr_record_of rd m l =
     (case m of (course, plyr, pts, herr, tm) \<Rightarrow>
        (\<exists>b time_str. etr_time rd tm = Inr time_str
           \<and> l = etr_record plyr (replace_underscores course) (nat_of_digits pts)
                   (nat_of_digits herr) time_str b))"

definition bad_float :: "string \<Rightarrow> bool" where
  "bad_float tm = (case dec_float tm of None \<Rightarrow> True | Some v \<Rightarrow> real float_limit \<le> v)"

definition etr_line_aborts :: "string \<Rightarrow> bool" where
  "etr_line_aborts line =
     (case etr_match line of
        None \<Rightarrow> False
      | Some (course, plyr, pts, herr, tm) \<Rightarrow>
          int_max_str_digits < length pts \<or> int_max_str_digits < length herr \<or> bad_float tm)"

definition etr_good :: string where
  "etr_good = ''[course] bunny_hill [plyr] tux [pts] 120 [herr] 7 [time] 75.5''"

definition etr_no_herring :: string where
  "etr_no_herring = ''[course] bunny_hill [plyr] tux [pts] 120 [time] 75.5''"

definition etr_bad_time :: string where
  "etr_bad_time = ''[course] bunny_hill [plyr] tux [pts] 120 [herr] 7 [time] 1.2.3''"

definition etr_lines1 :: "string list" where
  "etr_lines1 = [etr_good, etr_no_herring, etr_good]"

definition etr_lines2 :: "string list" where
  "etr_lines2 = [etr_good, etr_bad_time]"

section \<open>The delivery sink and the file-change poller\<close>

text \<open>
  What \<open>requests.post\<close> does for one request: it returns a response with a status
  code, or raises \<open>requests.exceptions.ConnectionError\<close>, or raises another exception
  (with its text). \<open>net k\<close> is the outcome of the \<open>k\<close>-th request the program issues.
\<close>

datatype post_outcome = Response nat | ConnectionError | OtherException string

text \<open>
  The lines printed: a failed transmission, the summary of a batch with the parts it
  shows, and the notice of the poller. The sink's side of the world is the list of
  requests issued (game and body) and the console.
\<close>

datatype summary_part = Saved nat | Duplicates nat | Anomalies nat

datatype printed = SendFailed string string | Status string "summary_part list" | Changed string

record sink =
  requests :: "(string \<times> log) list"
  console :: "printed list"

text \<open>\<open>log.get('is_anomaly')\<close> as a condition.\<close>

fun truthy :: "pyval option \<Rightarrow> bool" where
  "truthy None = False"
| "truthy (Some (VBool b)) = b"
| "truthy (Some (VInt i)) = (i \<noteq> 0)"
| "truthy (Some (VStr s)) = (s \<noteq> [])"

record counts =
  success_count :: nat
  anomaly_count :: nat
  duplicate_count :: nat

fun send_loop ::
  "(nat \<Rightarrow> post_outcome) \<Rightarrow> string \<Rightarrow> log list \<Rightarrow> counts \<Rightarrow> sink \<Rightarrow> counts \<times> sink" where
  "send_loop net game [] c sk = (c, sk)"
| "send_loop net game (entry # logs) c sk =
     (let outcome = net (length (requests sk));
          sk1 = sk\<lparr>requests := requests sk @ [(game, entry)]\<rparr>
      in case outcome of
           Response status_code \<Rightarrow>
             if status_code = 200 then
               send_loop net game logs
                 (c\<lparr>success_count := success_count c + 1,
                    anomaly_count := (if truthy (map_of entry ''is_anomaly'')
                                      then anomaly_count c + 1 else anomaly_count c)\<rparr>) sk1
             else if status_code = 409 then
               send_loop net game logs (c\<lparr>duplicate_count := duplicate_count c + 1\<rparr>) sk1
             else send_loop net game logs c sk1
         | ConnectionError \<Rightarrow> send_loop net game logs c sk1
         | OtherException e \<Rightarrow>
             send_loop net game logs c (sk1\<lparr>console := console sk1 @ [SendFailed game e]\<rparr>))"

definition summary :: "counts \<Rightarrow> summary_part list" where
  "summary c =
     (if success_count c > 0 then [Saved (success_count c)] else [])
     @ (if duplicate_count c > 0 then [Duplicates (duplicate_count c)] else [])
     @ (if anomaly_count c > 0 then [Anomalies (anomaly_count c)] else [])"

definition send_to_api ::
  "(nat \<Rightarrow> post_outcome) \<Rightarrow> string \<Rightarrow> log list \<Rightarrow> sink \<Rightarrow> counts \<times> sink" where
  "send_to_api net game logs sk =
     (let res = send_loop net game logs
                  \<lparr> success_count = 0, anomaly_count = 0, duplicate_count = 0 \<rparr> sk;
          c = fst res; sk' = snd res
      in if success_count c > 0 \<or> duplicate_count c > 0
         then (c, sk'\<lparr>console := console sk' @ [Status game (summary c)]\<rparr>)
         else (c, sk'))"

text \<open>
  For stating the tally: the outcomes of the requests of a batch, in order, when
  \<open>n\<close> requests were issued before it.
\<close>

definition outcomes :: "(nat \<Rightarrow> post_outcome) \<Rightarrow> nat \<Rightarrow> nat \<Rightarrow> post_outcome list" where
  "outcomes net n k = map net [n..<n + k]"

fun failures :: "string \<Rightarrow> post_outcome list \<Rightarrow> printed list" where
  "failures game [] = []"
| "failures game (OtherException e # os) = SendFailed game e # failures game os"
| "failures game (Response s # os) = failures game os"
| "failures game (ConnectionError # os) = failures game os"

definition accepted_flags :: "log list \<Rightarrow> post_outcome list \<Rightarrow> bool list" where
  "accepted_flags logs os =
     map (\<lambda>p. truthy (map_of (fst p) ''is_anomaly''))
       (filter (\<lambda>p. snd p = Response 200) (zip logs os))"

text \<open>
  The poller. \<open>LOG_PATHS\<close> has one path for each game, so a score file is found by the
  name of its game; the dictionary \<open>last_modified\<close> has an entry for each game. The
  environment gives the files, the clock, the network, the rounding to doubles, and
  \<open>parse_supertux_log\<close>, which the embedding does not cover.
\<close>

definition LOG_PATHS :: "string list" where
  "LOG_PATHS = [''neverball'', ''supertux'', ''etr'']"

record env =
  files :: "string \<Rightarrow> score_file option"
  time_at :: "nat \<Rightarrow> real"
  post :: "nat \<Rightarrow> post_outcome"
  rounding :: "real \<Rightarrow> real"
  parse_supertux_log :: "score_file option \<Rightarrow> sensor \<Rightarrow> log list \<times> sensor"

record watcher =
  last_modified :: "string \<Rightarrow> real"
  sensor :: sensor
  outbox :: sink

definition watcher_init :: "env \<Rightarrow> sensor \<Rightarrow> sink \<Rightarrow> watcher" where
  "watcher_init e st sk =
     \<lparr> last_modified = (\<lambda>game. case files e game of Some f \<Rightarrow> mtime f | None \<Rightarrow> 0),
       sensor = st, outbox = sk \<rparr>"

definition parse_game :: "env \<Rightarrow> string \<Rightarrow> sensor \<Rightarrow> log list \<times> sensor" where
  "parse_game e game st =
     (if game = ''neverball'' then parse_neverball_log (rounding e) (time_at e) (files e game) st
      else if game = ''supertux'' then parse_supertux_log e (files e game) st
      else if game = ''etr'' then parse_etr_log (rounding e) (time_at e) (files e game) st
      else ([], st))"

text \<open>The body of the \<open>for\<close> loop of \<open>_watch_loop\<close> for one game, and one cycle.\<close>

definition watch_game :: "env \<Rightarrow> watcher \<Rightarrow> string \<Rightarrow> watcher" where
  "watch_game e w game =
     (case files e game of
        None \<Rightarrow> w
      | Some f \<Rightarrow>
          (let current_mtime = mtime f in
           if current_mtime > last_modified w game then
             (let w1 = w\<lparr>outbox := (outbox w)\<lparr>console := console (outbox w) @ [Changed game]\<rparr>\<rparr>;
                  w2 = w1\<lparr>last_modified := (last_modified w1)(game := current_mtime)\<rparr>;
                  res = parse_game e game (sensor w2);
                  w3 = w2\<lparr>sensor := snd res\<rparr>
              in if fst res \<noteq> []
                 then w3\<lparr>outbox := snd (send_to_api (post e) game (fst res) (outbox w3))\<rparr>
                 else w3)
           else w))"

definition watch_cycle :: "env \<Rightarrow> watcher \<Rightarrow> watcher" where
  "watch_cycle e w = foldl (watch_game e) w LOG_PATHS"

text \<open>
  For stating what a cycle does: the games whose file exists with a modification time
  above the stored one, and whether the pass over a file succeeds.
\<close>

definition changed :: "env \<Rightarrow> watcher \<Rightarrow> string \<Rightarrow> bool" where
  "changed e w game =
     (case files e game of None \<Rightarrow> False | Some f \<Rightarrow> last_modified w game < mtime f)"

definition neverball_pass_ok :: "env \<Rightarrow> sensor \<Rightarrow> bool" where
  "neverball_pass_ok e st =
     (case files e ''neverball'' of
        None \<Rightarrow> False
      | Some f \<Rightarrow>
          (case fst (neverball_try (rounding e) (time_at e) f st) of Inl err \<Rightarrow> False | Inr logs \<Rightarrow> True))"

text \<open>Sample networks, records and environments.\<close>

definition net500 :: "nat \<Rightarrow> post_outcome" where
  "net500 k = Response 500"

definition net_mixed :: "nat \<Rightarrow> post_outcome" where
  "net_mixed k =
     (if k = 0 then Response 200 else if k = 1 then Response 409
      else if k = 2 then ConnectionError else if k = 3 then OtherException ''timed out''
      else Response 200)"

definition rec_a :: log where
  "rec_a = neverball_record ''alice'' 1234 56 ''00:12'' True"

definition rec_b :: log where
  "rec_b = neverball_record ''bob'' 77 1 ''00:00'' False"

definition no_sink :: sink where
  "no_sink = \<lparr> requests = [], console = [] \<rparr>"

definition no_stux :: "score_file option \<Rightarrow> sensor \<Rightarrow> log list \<times> sensor" where
  "no_stux fo st = ([], st)"

definition env_unreadable :: env where
  "env_unreadable =
     \<lparr> files = (\<lambda>game. if game = ''neverball'' then Some \<lparr> mtime = 5, content = Unreadable \<rparr>
                     else None),
       time_at = clock0, post = net500, rounding = exact, parse_supertux_log = no_stux \<rparr>"

definition env_scores :: env where
  "env_scores =
     \<lparr> files = (\<lambda>game. if game = ''neverball'' then Some \<lparr> mtime = 5, content = Lines scores1 \<rparr>
                     else if game = ''etr'' then Some \<lparr> mtime = 0, content = Lines etr_lines1 \<rparr>
                     else None),
       time_at = clock0, post = net_mixed, rounding = exact, parse_supertux_log = no_stux \<rparr>"

definition watcher0 :: watcher where
  "watcher0 = \<lparr> last_modified = (\<lambda>game. 0), sensor = (init_detector, 0), outbox = no_sink \<rparr>"

definition mtime_of :: "env \<Rightarrow> string \<Rightarrow> real" where
  "mtime_of e game = (case files e game of None \<Rightarrow> 0 | Some f \<Rightarrow> mtime f)"

fun notices :: "printed list \<Rightarrow> string list" where
  "notices [] = []"
| "notices (Changed game # ps) = game # notices ps"
| "notices (SendFailed game err # ps) = notices ps"
| "notices (Status game parts # ps) = notices ps"

section \<open>Properties of the detector\<close>

lemma update_frame:
  "check_interval (update d p r) = check_interval d"
  "last_check_time (update d p r) = last_check_time d"
  "enabled (update d p r) = enabled d"
  "calibration_count (update d p r) = calibration_count d"
  "pitch_threshold (update d p r) = pitch_threshold d"
  "roll_threshold (update d p r) = roll_threshold d"
  by (simp_all add: update_def Let_def)

lemma check_frame:
  "check_interval (snd (check_anomaly d t)) = check_interval d"
  "enabled (snd (check_anomaly d t)) = enabled d"
  "calibration_count (snd (check_anomaly d t)) = calibration_count d"
  "baseline (snd (check_anomaly d t)) = baseline d"
  "calibration_samples (snd (check_anomaly d t)) = calibration_samples d"
  "current_pitch (snd (check_anomaly d t)) = current_pitch d"
  "current_roll (snd (check_anomaly d t)) = current_roll d"
  by (simp_all add: check_anomaly_def Let_def split: option.splits prod.splits)

lemma check_blocked:
  "t - last_check_time d < check_interval d \<Longrightarrow> check_anomaly d t = (False, d)"
  by (simp add: check_anomaly_def split: option.splits prod.splits)

lemma check_last:
  "last_check_time (snd (check_anomaly d t)) = (if compares d t then t else last_check_time d)"
  by (simp add: check_anomaly_def compares_def Let_def split: option.splits prod.splits)

lemma check_True_last:
  "fst (check_anomaly d t) \<Longrightarrow> last_check_time (snd (check_anomaly d t)) = t"
  by (simp add: check_anomaly_def Let_def split: option.splits prod.splits if_splits)

lemma run_interval: "check_interval (fst (run d evs)) = check_interval d"
proof (induction evs arbitrary: d)
  case (Cons ev evs)
  show ?case
    by (cases ev) (simp_all add: Cons.IH Let_def update_frame check_frame)
qed simp

lemma state_after_interval: "check_interval (state_after evs) = 2"
  by (simp add: state_after_def run_interval init_detector_def)

lemma run_append:
  "run d (evs @ evs') =
     (let (d', bs) = run d evs; (d'', bs') = run d' evs' in (d'', bs @ bs'))"
proof (induction evs arbitrary: d)
  case (Cons ev evs)
  show ?case
    by (cases ev) (simp_all add: Cons.IH Let_def split_beta)
qed (simp add: split_beta)

lemma hist1_state:
  "state_after hist1 =
     \<lparr> enabled = True, baseline = Some (1, 2), current_pitch = 41, current_roll = 2,
       last_check_time = 100, check_interval = 2, pitch_threshold = 15,
       roll_threshold = 15, calibration_samples = replicate 10 (1, 2),
       calibration_count = 10 \<rparr>"
  by (simp add: state_after_def hist1_def calib10_def init_detector_def numeral_eq_Suc
      update_def py_sum_def Let_def check_anomaly_def)

text \<open>
  \<^bold>\<open>Claim C10.\<close> In every reachable armed state, a check call made less than two seconds
  after the time stored in \<open>last_check_time\<close> returns the detector unchanged, so a later
  check behaves as if the early call had not happened; and \<open>last_check_time\<close> moves only
  in a check that compares, to the time of that check. The window is therefore measured
  from the last comparing check.
\<close>

theorem check_anomaly_within_window_unchanged:
  "(armed (state_after evs) \<and> t - last_check_time (state_after evs) < 2
      \<longrightarrow> snd (check_anomaly (state_after evs) t) = state_after evs
        \<and> check_anomaly (snd (check_anomaly (state_after evs) t)) t'
            = check_anomaly (state_after evs) t')
   \<and> last_check_time (snd (check_anomaly d t))
        = (if compares d t then t else last_check_time d)"
proof -
  have "check_anomaly (state_after evs) t = (False, state_after evs)"
    if "t - last_check_time (state_after evs) < 2"
    using that by (intro check_blocked) (simp add: state_after_interval)
  then show ?thesis
    by (simp add: check_last)
qed

text \<open>
  At the history \<open>hist1\<close> the last comparing check was at time 100: a call at 101
  changes nothing, and the call at 102 compares and reports the tilt, although only one
  second has passed since the call at 101.
\<close>

theorem check_anomaly_within_window_unchanged_witness:
  "armed (state_after hist1) \<and> 101 - last_check_time (state_after hist1) < 2
   \<and> snd (check_anomaly (state_after hist1) 101) = state_after hist1
   \<and> check_anomaly (snd (check_anomaly (state_after hist1) 101)) 102
       = check_anomaly (state_after hist1) 102
   \<and> fst (check_anomaly (state_after hist1) 102)"
proof -
  have a: "armed (state_after hist1)" by (simp add: armed_def hist1_state)
  have b: "101 - last_check_time (state_after hist1) < 2" by (simp add: hist1_state)
  have c: "fst (check_anomaly (state_after hist1) 102)"
    by (simp add: check_anomaly_def hist1_state Let_def)
  show ?thesis
    using a b c check_anomaly_within_window_unchanged [of hist1 101 102] by simp
qed

lemma run_blocked:
  "\<forall>t\<in>set (check_times evs). t - last_check_time d < check_interval d
     \<Longrightarrow> True \<notin> set (snd (run d evs))"
proof (induction evs arbitrary: d)
  case (Cons ev evs)
  show ?case
  proof (cases ev)
    case (Update p r)
    with Cons.prems Cons.IH [of "update d p r"] show ?thesis
      by (simp add: update_frame)
  next
    case (Check t)
    with Cons.prems have "check_anomaly d t = (False, d)"
      by (simp add: check_blocked)
    with Check Cons.prems Cons.IH [of d] show ?thesis
      by (simp add: Let_def)
  qed
qed simp

lemma run_window:
  "\<forall>t\<in>set (check_times evs). w \<le> t \<and> t < w + check_interval d
     \<Longrightarrow> count_list (snd (run d evs)) True \<le> 1"
proof (induction evs arbitrary: d)
  case (Cons ev evs)
  show ?case
  proof (cases ev)
    case (Update p r)
    with Cons.prems Cons.IH [of "update d p r"] show ?thesis
      by (simp add: update_frame)
  next
    case (Check t)
    define d' where "d' = snd (check_anomaly d t)"
    have iv: "check_interval d' = check_interval d"
      by (simp add: d'_def check_frame)
    show ?thesis
    proof (cases "fst (check_anomaly d t)")
      case True
      then have "last_check_time d' = t"
        by (simp add: d'_def check_True_last)
      with Cons.prems Check iv
      have "\<forall>u\<in>set (check_times evs). u - last_check_time d' < check_interval d'"
        by auto
      then have "True \<notin> set (snd (run d' evs))"
        by (rule run_blocked)
      then have "count_list (snd (run d' evs)) True = 0"
        by (simp add: count_list_0_iff)
      with Check True show ?thesis
        by (simp add: Let_def d'_def)
    next
      case False
      from Cons.prems Check iv
      have "\<forall>u\<in>set (check_times evs). w \<le> u \<and> u < w + check_interval d'"
        by simp
      then have "count_list (snd (run d' evs)) True \<le> 1"
        by (rule Cons.IH)
      with Check False show ?thesis
        by (simp add: Let_def d'_def)
    qed
  qed
qed simp

text \<open>
  \<^bold>\<open>Claim C3.\<close> In every reachable armed state, a check call made less than two seconds
  after the previous comparing check answers \<open>False\<close> and does not reach the comparison
  with the baseline, whatever the current deviation is. Hence, from any reachable state,
  among the check calls of a history whose times all lie in one window of two seconds, at
  most one answers \<open>True\<close> (update calls may come between them).
\<close>

theorem check_anomaly_rate_limited:
  "(armed (state_after evs0) \<and> t - last_check_time (state_after evs0) < 2
      \<longrightarrow> \<not> fst (check_anomaly (state_after evs0) t) \<and> \<not> compares (state_after evs0) t)
   \<and> ((\<forall>u\<in>set (check_times evs). w \<le> u \<and> u < w + 2)
      \<longrightarrow> count_list (snd (run (state_after evs0) evs)) True \<le> 1)"
proof -
  have "\<not> fst (check_anomaly (state_after evs0) t) \<and> \<not> compares (state_after evs0) t"
    if "t - last_check_time (state_after evs0) < 2"
    using that check_blocked [of t "state_after evs0"]
    by (simp add: state_after_interval compares_def)
  moreover have "count_list (snd (run (state_after evs0) evs)) True \<le> 1"
    if "\<forall>u\<in>set (check_times evs). w \<le> u \<and> u < w + 2"
    using that by (intro run_window [of evs w]) (simp add: state_after_interval)
  ultimately show ?thesis by blast
qed

lemma py_sum_sum_list: "py_sum xs = sum_list xs"
proof -
  have "foldl (+) a xs = a + sum_list xs" for a :: real
    by (induction xs arbitrary: a) simp_all
  then show ?thesis by (simp add: py_sum_def)
qed

lemma update_armed: "baseline d \<noteq> None \<Longrightarrow> baseline (update d p r) = baseline d"
  by (simp add: update_def Let_def)

lemma run_armed: "baseline d \<noteq> None \<Longrightarrow> baseline (fst (run d evs)) = baseline d"
proof (induction evs arbitrary: d)
  case (Cons ev evs)
  then show ?case
    by (cases ev) (simp_all add: Let_def update_armed check_frame)
qed simp

lemma run_calibrating:
  assumes "baseline d = None" "calibration_count d = 10" "length (calibration_samples d) < 10"
  shows "(length (calibration_samples d @ samples_of evs) < 10 \<longrightarrow>
            baseline (fst (run d evs)) = None
            \<and> calibration_samples (fst (run d evs)) = calibration_samples d @ samples_of evs
            \<and> True \<notin> set (snd (run d evs)))
       \<and> (10 \<le> length (calibration_samples d @ samples_of evs) \<longrightarrow>
            baseline (fst (run d evs))
              = Some (mean_of (take 10 (calibration_samples d @ samples_of evs))))"
  using assms
proof (induction evs arbitrary: d)
  case Nil
  then show ?case by simp
next
  case (Cons ev evs)
  show ?case
  proof (cases ev)
    case (Check t)
    have "check_anomaly d t = (False, d)"
      using Cons.prems by (simp add: check_anomaly_def)
    with Check Cons.IH [of d] Cons.prems show ?thesis
      by (simp add: Let_def)
  next
    case (Update p r)
    show ?thesis
    proof (cases "length (calibration_samples d) < 9")
      case True
      then have u: "baseline (update d p r) = None"
        "calibration_samples (update d p r) = calibration_samples d @ [(p, r)]"
        "calibration_count (update d p r) = 10"
        using Cons.prems by (simp_all add: update_def Let_def)
      with True Cons.IH [of "update d p r"] Update show ?thesis
        by simp
    next
      case False
      with Cons.prems have l: "length (calibration_samples d) = 9" by simp
      then have "baseline (update d p r) = Some (mean_of (calibration_samples d @ [(p, r)]))"
        using Cons.prems by (simp add: update_def Let_def mean_of_def py_sum_sum_list)
      then have "baseline (fst (run (update d p r) evs))
                   = Some (mean_of (calibration_samples d @ [(p, r)]))"
        using run_armed [of "update d p r" evs] by simp
      with l Update show ?thesis
        by simp
    qed
  qed
qed




text \<open>
  After \<open>hist1\<close> the device is tilted by 40 degrees and the last comparing check was at
  time 100: the check at 101 answers \<open>False\<close>. Of the three checks of \<open>burst\<close>, all
  between 102 and 104 and all with the device tilted, only the first answers \<open>True\<close>.
\<close>

theorem check_anomaly_rate_limited_witness:
  "armed (state_after hist1) \<and> 101 - last_check_time (state_after hist1) < 2
   \<and> \<bar>current_pitch (state_after hist1) - 1\<bar> > pitch_threshold (state_after hist1)
   \<and> \<not> fst (check_anomaly (state_after hist1) 101)
   \<and> \<not> compares (state_after hist1) 101
   \<and> list_all (\<lambda>u. 102 \<le> u \<and> u < 102 + 2) (check_times burst)
   \<and> snd (run (state_after hist1) burst) = [True, False, False]
   \<and> count_list (snd (run (state_after hist1) burst)) True \<le> 1"
proof -
  have a: "armed (state_after hist1)" by (simp add: armed_def hist1_state)
  have b: "101 - last_check_time (state_after hist1) < 2" by (simp add: hist1_state)
  have c: "\<bar>current_pitch (state_after hist1) - 1\<bar> > pitch_threshold (state_after hist1)"
    by (simp add: hist1_state)
  have d: "\<forall>u\<in>set (check_times burst). 102 \<le> u \<and> u < 102 + 2"
    by (simp add: burst_def)
  have e: "snd (run (state_after hist1) burst) = [True, False, False]"
    by (simp add: burst_def hist1_state check_anomaly_def update_def Let_def)
  from check_anomaly_rate_limited [of hist1 101 burst 102] a b d
  have "\<not> fst (check_anomaly (state_after hist1) 101)"
    "\<not> compares (state_after hist1) 101"
    "count_list (snd (run (state_after hist1) burst)) True \<le> 1"
    by blast+
  with a b c d e show ?thesis
    by (simp add: list_all_iff)
qed



section \<open>Properties of the controller\<close>

lemma key_value_key_writes:
  "key_value KEY_RIGHT (key_writes fr) = Some (if x_val fr < 1000 \<or> btn_right fr then 1 else 0)"
  "key_value KEY_LEFT (key_writes fr) = Some (if x_val fr > 3000 \<or> btn_left fr then 1 else 0)"
  "key_value KEY_DOWN (key_writes fr) = Some (if y_val fr > 3000 \<or> btn_down fr then 1 else 0)"
  "key_value KEY_UP (key_writes fr) = Some (if y_val fr < 1000 \<or> btn_up fr then 1 else 0)"
  "key_value KEY_ENTER (key_writes fr) = Some (if sw_pressed fr then 1 else 0)"
  "key_value KEY_SPACE (key_writes fr) = Some (if y_val fr < 1000 \<or> btn_up fr then 1 else 0)"
  by (simp_all add: key_writes_def THRESHOLD_LOW_def THRESHOLD_HIGH_def Let_def)

text \<open>
  \<^bold>\<open>Claim C1.\<close> For every frame, the key states written to the device are: right when
  \<open>x < 1000\<close> or the right button is set, left when \<open>x > 3000\<close> or the left button, down
  when \<open>y > 3000\<close> or the down button, up when \<open>y < 1000\<close> or the up button, enter when the
  switch is pressed, and space as up; every key is written. The comparisons are strict:
  with no button set, \<open>x = 1000\<close> leaves right released and \<open>x = 999\<close> presses it. These
  writes are what \<open>_process_data\<close> appends to the device for a payload that decodes.
\<close>

theorem key_mapping:
  "pressed KEY_RIGHT (key_writes fr) = (x_val fr < 1000 \<or> btn_right fr)
   \<and> pressed KEY_LEFT (key_writes fr) = (x_val fr > 3000 \<or> btn_left fr)
   \<and> pressed KEY_DOWN (key_writes fr) = (y_val fr > 3000 \<or> btn_down fr)
   \<and> pressed KEY_UP (key_writes fr) = (y_val fr < 1000 \<or> btn_up fr)
   \<and> pressed KEY_ENTER (key_writes fr) = sw_pressed fr
   \<and> pressed KEY_SPACE (key_writes fr) = pressed KEY_UP (key_writes fr)
   \<and> (\<forall>k. key_value k (key_writes fr) \<noteq> None)
   \<and> \<not> pressed KEY_RIGHT (key_writes (frame_of 1000 y))
   \<and> pressed KEY_RIGHT (key_writes (frame_of 999 y))
   \<and> snd (process_data cv (d, out) data)
       = out @ (case decode_frame cv data of None \<Rightarrow> [] | Some fr' \<Rightarrow> key_writes fr')"
proof -
  have "key_value k (key_writes fr) \<noteq> None" for k
    by (cases k) (simp_all add: key_value_key_writes)
  then show ?thesis
    by (simp add: pressed_def key_value_key_writes frame_of_def process_data_def
        split: option.split)
qed

text \<open>
  \<^bold>\<open>Claim C7.\<close> The decoder yields a frame exactly when the payload decodes as text, the
  split at commas has nine parts, parts 0 and 1 convert by \<open>int\<close> and parts 7 and 8 by
  \<open>float\<close>; the frame then holds these values, and each of the flags 2 to 6 is true
  exactly when its part is the text \<open>1\<close>. A payload that yields no frame leaves the
  detector and the device as they were (and \<open>process_data\<close> returns normally).
\<close>

theorem decode_frame_iff:
  "(decode_frame cv data \<noteq> None)
     = (\<exists>s. data = Str s \<and> length (split_on CHR '','' s) = 9
          \<and> int_of cv (split_on CHR '','' s ! 0) \<noteq> None
          \<and> int_of cv (split_on CHR '','' s ! 1) \<noteq> None
          \<and> float_of cv (split_on CHR '','' s ! 7) \<noteq> None
          \<and> float_of cv (split_on CHR '','' s ! 8) \<noteq> None)
   \<and> (decode_frame cv (Str s) = Some fr \<longrightarrow>
        (let parts = split_on CHR '','' s in
         length parts = 9
         \<and> int_of cv (parts ! 0) = Some (x_val fr) \<and> int_of cv (parts ! 1) = Some (y_val fr)
         \<and> sw_pressed fr = (parts ! 2 = ''1'') \<and> btn_up fr = (parts ! 3 = ''1'')
         \<and> btn_left fr = (parts ! 4 = ''1'') \<and> btn_down fr = (parts ! 5 = ''1'')
         \<and> btn_right fr = (parts ! 6 = ''1'')
         \<and> float_of cv (parts ! 7) = Some (pitch fr)
         \<and> float_of cv (parts ! 8) = Some (roll fr)))
   \<and> (decode_frame cv data = None \<longrightarrow> process_data cv st data = st)"
proof -
  have 1: "(decode_frame cv data \<noteq> None)
     = (\<exists>s. data = Str s \<and> length (split_on CHR '','' s) = 9
          \<and> int_of cv (split_on CHR '','' s ! 0) \<noteq> None
          \<and> int_of cv (split_on CHR '','' s ! 1) \<noteq> None
          \<and> float_of cv (split_on CHR '','' s ! 7) \<noteq> None
          \<and> float_of cv (split_on CHR '','' s ! 8) \<noteq> None)"
    by (cases data)
      (auto simp: decode_frame_def parse_fields_def Let_def split: option.splits)
  have 2: "decode_frame cv (Str s) = Some fr \<longrightarrow>
        (let parts = split_on CHR '','' s in
         length parts = 9
         \<and> int_of cv (parts ! 0) = Some (x_val fr) \<and> int_of cv (parts ! 1) = Some (y_val fr)
         \<and> sw_pressed fr = (parts ! 2 = ''1'') \<and> btn_up fr = (parts ! 3 = ''1'')
         \<and> btn_left fr = (parts ! 4 = ''1'') \<and> btn_down fr = (parts ! 5 = ''1'')
         \<and> btn_right fr = (parts ! 6 = ''1'')
         \<and> float_of cv (parts ! 7) = Some (pitch fr)
         \<and> float_of cv (parts ! 8) = Some (roll fr))"
    by (auto simp: decode_frame_def parse_fields_def Let_def split: option.splits if_splits)
  have 3: "decode_frame cv data = None \<longrightarrow> process_data cv st data = st"
    by (simp add: process_data_def)
  from 1 2 3 show ?thesis by blast
qed

lemma decode_pkt2:
  "decode_frame dec_conv pkt2 =
     Some \<lparr> x_val = 1000, y_val = 3001, sw_pressed = True, btn_up = False, btn_left = True,
            btn_down = False, btn_right = False, pitch = 3 / 2, roll = 2 \<rparr>"
  by (simp add: decode_frame_def pkt2_def parse_fields_def dec_conv_def dec_int_def
      dec_float_def is_digit_def nat_of_digits_def digit_val_def)

lemma decode_pkt1:
  "decode_frame dec_conv pkt1 =
     Some \<lparr> x_val = 999, y_val = 1000, sw_pressed = False, btn_up = False, btn_left = False,
            btn_down = False, btn_right = False, pitch = 3 / 2, roll = 2 \<rparr>"
  by (simp add: decode_frame_def pkt1_def parse_fields_def dec_conv_def dec_int_def
      dec_float_def is_digit_def nat_of_digits_def digit_val_def)

text \<open>
  The payload \<open>pkt2\<close> decodes to a frame with the switch and the left button set; a
  payload of three fields, one whose first field is not a number, and bytes that are not
  UTF-8 are discarded and change nothing.
\<close>

theorem decode_frame_iff_witness:
  "decode_frame dec_conv pkt2 \<noteq> None
   \<and> length (split_on CHR '','' ''1000,3001,1,0,1,0,0,1.5,2'') = 9
   \<and> int_of dec_conv (split_on CHR '','' ''1000,3001,1,0,1,0,0,1.5,2'' ! 0) = Some 1000
   \<and> float_of dec_conv (split_on CHR '','' ''1000,3001,1,0,1,0,0,1.5,2'' ! 7) = Some (3 / 2)
   \<and> decode_frame dec_conv (Str ''1,2,3'') = None
   \<and> process_data dec_conv (init_detector, []) (Str ''1,2,3'') = (init_detector, [])
   \<and> decode_frame dec_conv (Str ''x,3001,1,0,1,0,0,1.5,2'') = None
   \<and> process_data dec_conv (init_detector, []) (Str ''x,3001,1,0,1,0,0,1.5,2'')
       = (init_detector, [])
   \<and> process_data dec_conv (init_detector, []) UnicodeDecodeError = (init_detector, [])"
proof -
  let ?fr = "\<lparr> x_val = 1000, y_val = 3001, sw_pressed = True, btn_up = False,
             btn_left = True, btn_down = False, btn_right = False, pitch = 3 / 2, roll = 2 \<rparr>"
  have a: "decode_frame dec_conv (Str ''1000,3001,1,0,1,0,0,1.5,2'') = Some ?fr"
    using decode_pkt2 by (simp add: pkt2_def)
  have b: "decode_frame dec_conv (Str ''1,2,3'') = None"
    by (simp add: decode_frame_def)
  have c: "decode_frame dec_conv (Str ''x,3001,1,0,1,0,0,1.5,2'') = None"
    by (simp add: decode_frame_def parse_fields_def dec_conv_def dec_int_def is_digit_def)
  have d: "decode_frame dec_conv UnicodeDecodeError = None"
    by (simp add: decode_frame_def)
  note t = decode_frame_iff [of dec_conv _ _ _ "(init_detector, [])"]
  from a t [of pkt2 "''1000,3001,1,0,1,0,0,1.5,2''" ?fr]
  have "length (split_on CHR '','' ''1000,3001,1,0,1,0,0,1.5,2'') = 9
     \<and> int_of dec_conv (split_on CHR '','' ''1000,3001,1,0,1,0,0,1.5,2'' ! 0) = Some 1000
     \<and> float_of dec_conv (split_on CHR '','' ''1000,3001,1,0,1,0,0,1.5,2'' ! 7) = Some (3 / 2)"
    by (simp add: Let_def)
  moreover from b t [of "Str ''1,2,3''" "[]" ?fr]
  have "process_data dec_conv (init_detector, []) (Str ''1,2,3'') = (init_detector, [])"
    by blast
  moreover from c t [of "Str ''x,3001,1,0,1,0,0,1.5,2''" "[]" ?fr]
  have "process_data dec_conv (init_detector, []) (Str ''x,3001,1,0,1,0,0,1.5,2'')
       = (init_detector, [])"
    by blast
  moreover from d t [of UnicodeDecodeError "[]" ?fr]
  have "process_data dec_conv (init_detector, []) UnicodeDecodeError = (init_detector, [])"
    by blast
  ultimately show ?thesis
    using b c decode_pkt2 by simp
qed

text \<open>
  \<^bold>\<open>Claim C8\<close> fails as stated. On a host where \<open>UInput\<close> cannot be opened, \<open>start\<close> returns
  at its first test and creates no receiver thread: a datagram that the receiver loop
  would decode, and that would update the detector, leaves the detector untouched.
\<close>

theorem receiver_without_device_counterexample:
  "\<not> uinput_opens no_device_host
   \<and> bind_succeeds no_device_host
   \<and> snd (start no_device_host (vk_init no_device_host)) = False
   \<and> controller no_device_host dec_conv init_detector [Datagram pkt1] = (init_detector, [])
   \<and> current_pitch (fst (receive_loop dec_conv (init_detector, []) [Datagram pkt1])) = 3 / 2
   \<and> current_pitch (fst (controller good_host dec_conv init_detector [Datagram pkt1])) = 3 / 2
   \<and> current_pitch init_detector = 0"
  by (simp add: no_device_host_def good_host_def start_def vk_init_def controller_def
      process_data_def decode_pkt1 update_def init_detector_def Let_def)

text \<open>
  \<^bold>\<open>Claim C8, amended.\<close> When \<open>evdev\<close> is missing or the virtual device cannot be opened,
  construction still returns an object (the failure is not fatal), with no device; \<open>start\<close>
  then returns at once: it opens no socket, leaves \<open>running\<close> false and creates no receiver
  thread, so whatever datagrams arrive, none is decoded or mapped, nothing is written and
  the detector is not updated.
\<close>

theorem start_without_device:
  "\<not> EVDEV_AVAILABLE h \<or> \<not> uinput_opens h \<Longrightarrow>
     keyboard (vk_init h) = None
     \<and> start h (vk_init h) = (\<lparr> keyboard = None, sock = None, running = False \<rparr>, False)
     \<and> controller h cv d rs = (d, [])"
  by (auto simp: vk_init_def start_def controller_def Let_def)

theorem start_without_device_witness:
  "(\<not> uinput_opens no_device_host)
   \<and> keyboard (vk_init no_device_host) = None
   \<and> start no_device_host (vk_init no_device_host)
       = (\<lparr> keyboard = None, sock = None, running = False \<rparr>, False)
   \<and> controller no_device_host dec_conv init_detector [Datagram pkt1, Datagram pkt2]
       = (init_detector, [])"
proof -
  have a: "\<not> EVDEV_AVAILABLE no_device_host \<or> \<not> uinput_opens no_device_host"
    by (simp add: no_device_host_def)
  from start_without_device [OF a, of dec_conv init_detector "[Datagram pkt1, Datagram pkt2]"] a
  show ?thesis
    by (simp add: no_device_host_def)
qed




section \<open>Properties of the Neverball parser\<close>

lemma accepted_Cons:
  "accepted (line # lines) =
     (case line_key line of None \<Rightarrow> accepted lines | Some k \<Rightarrow> k # accepted lines)"
  by (simp add: accepted_def map_filter_simps split: option.splits)

lemma accepted_Nil: "accepted [] = []"
  by (simp add: accepted_def map_filter_simps)

lemma first_seen_set: "set (first_seen seen xs) = set xs - seen"
  by (induction xs arbitrary: seen) auto

lemma first_seen_distinct: "distinct (first_seen seen xs)"
  by (induction xs arbitrary: seen) (auto simp: first_seen_set)

lemma big_overflows: "float_limit \<le> 10 ^ 309"
proof -
  have "(2::nat) ^ 1024 \<le> 10 ^ 309"
    by simp
  then show ?thesis
    unfolding float_limit_def by (rule order_trans [OF diff_le_self])
qed

lemma float_limit_ge: "2 ^ 970 \<le> float_limit"
proof -
  have "(2::nat) ^ 1024 = 2 ^ 970 * 2 ^ 54"
    by (simp only: power_add [symmetric]) simp
  then have "float_limit = 2 ^ 970 * (2 ^ 54 - 1)"
    by (simp only: float_limit_def diff_mult_distrib2 mult_1_right)
  then show ?thesis
    by simp
qed

lemma small_below_limit: "t < 2 ^ 53 \<Longrightarrow> t < float_limit"
proof -
  assume "t < 2 ^ 53"
  moreover have "(2::nat) ^ 53 \<le> 2 ^ 970"
    by (rule power_increasing) simp_all
  ultimately show ?thesis
    using float_limit_ge by linarith
qed

lemma double_rounding_exact: "double_rounding exact"
  by (simp add: double_rounding_def exact_def)

lemma rd_nat: "double_rounding rd \<Longrightarrow> n \<le> 2 ^ 53 \<Longrightarrow> rd (real n) = real n"
  by (simp add: double_rounding_def)

lemma py_floordiv_60:
  assumes rd: "double_rounding rd" and x: "0 \<le> x" "x \<le> 2 ^ 53"
  shows "py_floordiv rd x 60 = of_int \<lfloor>x / 60\<rfloor>"
proof -
  define k where "k = nat \<lfloor>x / 60\<rfloor>"
  from x have "0 \<le> \<lfloor>x / 60\<rfloor>"
    by simp
  then have kk: "of_int \<lfloor>x / 60\<rfloor> = real k"
    by (simp add: k_def)
  have "real k \<le> x / 60"
    using of_int_floor_le [of "x / 60"] by (simp only: kk)
  with x have "real (60 * k) \<le> real (2 ^ 53)"
    by simp
  then have le: "60 * k \<le> 2 ^ 53"
    by (simp only: of_nat_le_iff)
  then have le': "k \<le> 2 ^ 53"
    by simp
  have a: "x - py_fmod x 60 = real (60 * k)"
    by (simp add: py_fmod_def kk)
  have b: "rd (real (60 * k)) = real (60 * k)"
    using rd le by (rule rd_nat)
  have c: "rd (real k) = real k"
    using rd le' by (rule rd_nat)
  have d: "real (60 * k) / 60 = real k"
    by simp
  have "py_floordiv rd x 60 = real k"
    unfolding py_floordiv_def Let_def a b d c by simp
  then show ?thesis
    by (simp only: kk)
qed

lemma neverball_time_sec:
  assumes rd: "double_rounding rd" and t: "t < 2 ^ 53"
  shows "\<lfloor>rd (rd (real t) / 100)\<rfloor> = int (t div 100)
         \<and> 0 \<le> rd (rd (real t) / 100) \<and> rd (rd (real t) / 100) \<le> 2 ^ 53"
proof -
  define n where "n = t div 100"
  define f where "f = t mod 100"
  have tn: "t = 100 * n + f"
    by (simp add: n_def f_def)
  have f: "f < 100"
    by (simp add: f_def)
  from t have r: "rd (real t) = real t"
    using rd by (simp add: rd_nat)
  from t tn have n: "n < 2 ^ 53"
    by simp
  show ?thesis
  proof (cases "f = 0")
    case True
    then have "real t / 100 = real n"
      by (simp add: tn)
    then have "rd (real t) / 100 = real n"
      by (simp only: r)
    moreover have "rd (real n) = real n"
      using rd n by (simp add: rd_nat)
    ultimately have e: "rd (rd (real t) / 100) = real n"
      by simp
    from n have "real n \<le> real (2 ^ 53)"
      by (simp only: of_nat_le_iff)
    then have "real n \<le> 2 ^ 53"
      by simp
    then show ?thesis
      unfolding e n_def [symmetric] by simp
  next
    case False
    define y where "y = real t / 100"
    have y: "y = real n + real f / 100"
      by (simp add: y_def tn)
    from False f have lo: "real n + 1 / 100 \<le> y" and hi: "y \<le> real n + 99 / 100"
      by (simp_all add: y)
    from t have "real t < 2 ^ 53"
      by (metis of_nat_less_iff of_nat_numeral of_nat_power)
    then have y53: "y < 2 ^ 53 / 100"
      by (simp add: y_def)
    have "(100 :: real) \<le> 2 ^ 7"
      by simp
    also have "(2 :: real) ^ 7 \<le> 2 ^ 1022"
      by (rule power_increasing) simp_all
    finally have "(1 :: real) / 2 ^ 1022 \<le> 1 / 100"
      by (simp add: field_simps)
    with lo have y1: "1 / 2 ^ 1022 \<le> y"
      by linarith
    have "(2 :: real) ^ 53 \<le> 2 ^ 1023"
      by (rule power_increasing) simp_all
    moreover from y53 lo have "y < 2 ^ 53"
      by simp
    ultimately have y2: "y \<le> 2 ^ 1023"
      by (simp only: less_imp_le [OF less_le_trans])
    from rd y1 y2 have "\<bar>rd y - y\<bar> \<le> y / 2 ^ 53"
      by (simp add: double_rounding_def)
    moreover from y53 have "y / 2 ^ 53 < 1 / 100"
      by (simp add: field_simps)
    ultimately have e: "\<bar>rd y - y\<bar> < 1 / 100"
      by linarith
    from e lo have a: "real n < rd y"
      by linarith
    from e hi have b: "rd y < real n + 1"
      by linarith
    from a b have "\<lfloor>rd y\<rfloor> = int n"
      by (intro floor_unique) simp_all
    moreover from a have "0 \<le> rd y"
      by linarith
    moreover have "real n + 1 \<le> 2 ^ 53"
    proof -
      from n have "Suc n \<le> 2 ^ 53"
        by simp
      then have "real (Suc n) \<le> real (2 ^ 53)"
        by (simp only: of_nat_le_iff)
      then show ?thesis
        by simp
    qed
    with b have "rd y \<le> 2 ^ 53"
      by linarith
    ultimately show ?thesis
      by (simp add: r y_def n_def)
  qed
qed

lemma neverball_time_exact:
  assumes rd: "double_rounding rd" and t: "t < 2 ^ 53"
  shows "neverball_time rd t = Inr (time_text t)"
proof -
  define ts where "ts = rd (rd (real t) / 100)"
  from neverball_time_sec [OF rd t] have fl: "\<lfloor>ts\<rfloor> = int (t div 100)"
    and ts0: "0 \<le> ts" and ts53: "ts \<le> 2 ^ 53"
    by (simp_all add: ts_def)
  have q: "\<lfloor>ts / 60\<rfloor> = int (t div 6000)"
  proof -
    have "\<lfloor>ts / real_of_int 60\<rfloor> = \<lfloor>ts\<rfloor> div 60"
      by (rule floor_divide_real_eq_div) simp
    moreover have "t div 6000 = (t div 100) div 60"
      by (simp add: div_mult2_eq)
    ultimately show ?thesis
      by (simp add: fl zdiv_int)
  qed
  have m: "py_trunc (py_floordiv rd ts 60) = int (t div 6000)"
    by (simp add: py_floordiv_60 [OF rd ts0 ts53] q py_trunc_def)
  have pm: "py_mod ts 60 = ts - of_int (60 * int (t div 6000))"
    by (simp add: py_mod_def py_fmod_def q)
  have b: "\<lfloor>ts - of_int (60 * int (t div 6000))\<rfloor> = int (t div 100) - 60 * int (t div 6000)"
    by (simp only: floor_diff_of_int fl)
  have "t div 6000 = (t div 100) div 60"
    by (simp add: div_mult2_eq)
  then have c: "int (t div 100) - 60 * int (t div 6000) = int ((t div 100) mod 60)"
    by (simp add: zmod_int zdiv_int minus_mult_div_eq_mod)
  have "0 \<le> int ((t div 100) mod 60)"
    by simp
  then have "0 \<le> \<lfloor>py_mod ts 60\<rfloor>"
    using pm b c by simp
  then have "0 \<le> py_mod ts 60"
    by (simp only: zero_le_floor)
  then have s: "py_trunc (py_mod ts 60) = int ((t div 100) mod 60)"
    using pm b c by (simp add: py_trunc_def)
  from t have "t < float_limit"
    by (rule small_below_limit)
  then show ?thesis
    unfolding neverball_time_def Let_def ts_def [symmetric]
    by (simp only: m s time_text_def not_le [symmetric] if_False)
qed

lemma neverball_time_defined: "t < float_limit \<Longrightarrow> \<exists>s. neverball_time rd t = Inr s"
  by (simp add: neverball_time_def Let_def)

lemma neverball_skip:
  "line_key line = None \<Longrightarrow>
     neverball_loop rd clock (line # lines) logs seen st
       = neverball_loop rd clock lines logs seen st"
  by (auto simp: line_key_def split: option.splits if_splits)

lemma line_aborts_key: "line_aborts line \<Longrightarrow> \<exists>k. line_key line = Some k"
  by (auto simp: line_aborts_def line_key_def split: option.splits)

lemma neverball_step:
  assumes "line_key line = Some k" and "\<not> line_aborts line"
  shows "\<exists>s. neverball_time rd (fst (snd k)) = Inr s
           \<and> neverball_loop rd clock (line # lines) logs seen st
               = (if k \<in> seen then neverball_loop rd clock lines logs seen st
                  else neverball_loop rd clock lines
                         (logs @ [neverball_record (fst k) (fst (snd k)) (snd (snd k)) s
                                    (fst (check_now clock st))])
                         (insert k seen) (snd (check_now clock st)))"
proof -
  from assms(1) obtain ts cs u where m: "match_neverball (strip line) = Some (ts, cs, u)"
    and u: "u \<notin> {''Hard'', ''Medium'', ''Easy''}"
    and k: "k = (u, nat_of_digits ts, nat_of_digits cs)"
    by (auto simp: line_key_def split: option.splits if_splits)
  from assms(2) m u have a: "\<not> int_max_str_digits < length ts"
    "nat_of_digits ts < float_limit" "\<not> int_max_str_digits < length cs"
    by (simp_all add: line_aborts_def not_le)
  from a(2) obtain s where s: "neverball_time rd (nat_of_digits ts) = Inr s"
    using neverball_time_defined by blast
  have e: "neverball_entry rd ts cs u = Inr (k, s)"
    using a s by (simp add: neverball_entry_def py_int_def k)
  have "neverball_loop rd clock (line # lines) logs seen st
               = (if k \<in> seen then neverball_loop rd clock lines logs seen st
                  else neverball_loop rd clock lines
                         (logs @ [neverball_record (fst k) (fst (snd k)) (snd (snd k)) s
                                    (fst (check_now clock st))])
                         (insert k seen) (snd (check_now clock st)))"
    using m u e by (simp add: Let_def k)
  with s show ?thesis
    by (auto simp: k)
qed

lemma neverball_abort_step:
  assumes "line_aborts line"
  shows "\<exists>e. neverball_loop rd clock (line # lines) logs seen st = (Inl e, st)"
proof -
  from assms obtain ts cs u where m: "match_neverball (strip line) = Some (ts, cs, u)"
    and u: "u \<notin> {''Hard'', ''Medium'', ''Easy''}"
    and a: "int_max_str_digits < length ts \<or> float_limit \<le> nat_of_digits ts
             \<or> int_max_str_digits < length cs"
    by (auto simp: line_aborts_def split: option.splits)
  have "\<exists>e. neverball_entry rd ts cs u = Inl e"
  proof (cases "int_max_str_digits < length ts")
    case True
    then show ?thesis
      by (simp add: neverball_entry_def py_int_def)
  next
    case False
    note l = this
    show ?thesis
    proof (cases "float_limit \<le> nat_of_digits ts")
      case True
      with l show ?thesis
        by (simp add: neverball_entry_def py_int_def neverball_time_def)
    next
      case False
      with a l have c: "int_max_str_digits < length cs"
        by simp
      from False obtain s where "neverball_time rd (nat_of_digits ts) = Inr s"
        using neverball_time_defined [of "nat_of_digits ts" rd] by auto
      with l c show ?thesis
        by (simp add: neverball_entry_def py_int_def)
    qed
  qed
  then obtain e where "neverball_entry rd ts cs u = Inl e" ..
  with m u show ?thesis
    by simp
qed

declare neverball_loop.simps(2) [simp del]

lemma aborts_Cons: "aborts (line # lines) = (line_aborts line \<or> aborts lines)"
  by (simp add: aborts_def)

lemma neverball_loop_ok:
  "\<not> aborts lines \<Longrightarrow>
     \<exists>L st'. neverball_loop rd clock lines logs seen st = (Inr (logs @ L), st')
            \<and> list_all2 (is_record_of rd) (first_seen seen (accepted lines)) L"
proof (induction lines arbitrary: logs seen st)
  case Nil
  then show ?case by (simp add: accepted_Nil)
next
  case (Cons line lines)
  from Cons.prems have na: "\<not> line_aborts line" and rest: "\<not> aborts lines"
    by (simp_all add: aborts_Cons)
  show ?case
  proof (cases "line_key line")
    case None
    with Cons.IH [OF rest, of logs seen st] show ?thesis
      by (simp add: neverball_skip accepted_Cons)
  next
    case (Some k)
    from neverball_step [OF Some na, of rd clock lines logs seen st]
    obtain s where s: "neverball_time rd (fst (snd k)) = Inr s"
      and step: "neverball_loop rd clock (line # lines) logs seen st
               = (if k \<in> seen then neverball_loop rd clock lines logs seen st
                  else neverball_loop rd clock lines
                         (logs @ [neverball_record (fst k) (fst (snd k)) (snd (snd k)) s
                                    (fst (check_now clock st))])
                         (insert k seen) (snd (check_now clock st)))"
      by blast
    show ?thesis
    proof (cases "k \<in> seen")
      case True
      with step Cons.IH [OF rest, of logs seen st] Some show ?thesis
        by (simp add: accepted_Cons)
    next
      case False
      define r where
        "r = neverball_record (fst k) (fst (snd k)) (snd (snd k)) s (fst (check_now clock st))"
      from step False have step':
        "neverball_loop rd clock (line # lines) logs seen st
           = neverball_loop rd clock lines (logs @ [r]) (insert k seen)
               (snd (check_now clock st))"
        by (simp add: r_def)
      from Cons.IH [OF rest, of "logs @ [r]" "insert k seen" "snd (check_now clock st)"]
      obtain L st' where
        L: "neverball_loop rd clock lines (logs @ [r]) (insert k seen)
              (snd (check_now clock st)) = (Inr ((logs @ [r]) @ L), st')"
        "list_all2 (is_record_of rd) (first_seen (insert k seen) (accepted lines)) L"
        by blast
      have "is_record_of rd k r"
        using s by (auto simp: is_record_of_def r_def)
      with L step' Some False show ?thesis
        by (simp add: accepted_Cons)
    qed
  qed
qed

lemma neverball_loop_abort:
  "aborts lines \<Longrightarrow> \<exists>e. fst (neverball_loop rd clock lines logs seen st) = Inl e"
proof (induction lines arbitrary: logs seen st)
  case Nil
  then show ?case by (simp add: aborts_def)
next
  case (Cons line lines)
  show ?case
  proof (cases "line_aborts line")
    case True
    from neverball_abort_step [OF True, of rd clock lines logs seen st] show ?thesis
      by auto
  next
    case False
    with Cons.prems have rest: "aborts lines"
      by (simp add: aborts_Cons)
    show ?thesis
    proof (cases "line_key line")
      case None
      with Cons.IH [OF rest, of logs seen st] show ?thesis
        by (simp add: neverball_skip)
    next
      case (Some k)
      from neverball_step [OF Some False, of rd clock lines logs seen st]
      obtain s where
        step: "neverball_loop rd clock (line # lines) logs seen st
               = (if k \<in> seen then neverball_loop rd clock lines logs seen st
                  else neverball_loop rd clock lines
                         (logs @ [neverball_record (fst k) (fst (snd k)) (snd (snd k)) s
                                    (fst (check_now clock st))])
                         (insert k seen) (snd (check_now clock st)))"
        by blast
      show ?thesis
      proof (cases "k \<in> seen")
        case True
        with step Cons.IH [OF rest, of logs seen st] show ?thesis
          by simp
      next
        case False
        with step Cons.IH [OF rest, of _ "insert k seen" "snd (check_now clock st)"]
        show ?thesis
          by simp
      qed
    qed
  qed
qed

lemma match_neverball_shape:
  assumes "match_neverball s = Some (t, c, u)"
  shows "\<exists>w1 w2 r. s = t @ w1 @ c @ w2 @ u @ r
           \<and> t \<noteq> [] \<and> list_all is_digit t \<and> w1 \<noteq> [] \<and> list_all is_space w1
           \<and> c \<noteq> [] \<and> list_all is_digit c \<and> w2 \<noteq> [] \<and> list_all is_space w2
           \<and> u \<noteq> [] \<and> list_all (\<lambda>x. \<not> is_space x) u \<and> (r = [] \<or> r = [CHR 0x0A])"
proof -
  define r1 where "r1 = dropWhile is_digit s"
  define r2 where "r2 = dropWhile is_space r1"
  define r3 where "r3 = dropWhile is_digit r2"
  define r4 where "r4 = dropWhile is_space r3"
  define r5 where "r5 = dropWhile (\<lambda>x. \<not> is_space x) r4"
  from assms have t: "t = takeWhile is_digit s" and c: "c = takeWhile is_digit r2"
    and u: "u = takeWhile (\<lambda>x. \<not> is_space x) r4"
    and ne: "t \<noteq> []" "takeWhile is_space r1 \<noteq> []" "c \<noteq> []" "takeWhile is_space r3 \<noteq> []"
      "u \<noteq> []"
    and r5: "r5 = [] \<or> r5 = [CHR 0x0A]"
    by (simp_all add: match_neverball_def Let_def r1_def r2_def r3_def r4_def r5_def
        split: if_splits)
  have "s = t @ r1" "r1 = takeWhile is_space r1 @ r2" "r2 = c @ r3"
    "r3 = takeWhile is_space r3 @ r4" "r4 = u @ r5"
    by (simp_all add: t c u r1_def r2_def r3_def r4_def r5_def)
  then have "s = t @ takeWhile is_space r1 @ c @ takeWhile is_space r3 @ u @ r5"
    by metis
  moreover have "list_all is_digit t" "list_all is_digit c"
    "list_all is_space (takeWhile is_space r1)" "list_all is_space (takeWhile is_space r3)"
    "list_all (\<lambda>x. \<not> is_space x) u"
    by (auto simp: t c u list_all_iff dest: set_takeWhileD)
  ultimately show ?thesis
    using ne r5 by blast
qed

lemmas neverball_eval =
  line_key_def match_neverball_def strip_def is_digit_def is_space_def nat_of_digits_def
  digit_val_def Let_def

lemma line_key_alice: "line_key ''1234 56 alice'' = Some (''alice'', 1234, 56)"
  by (simp add: neverball_eval)

lemma line_key_easy: "line_key ''999 1 Easy'' = None"
  by (simp add: neverball_eval)

lemma line_key_garbage: "line_key ''no score here'' = None"
  by (simp add: neverball_eval)

lemma nat_of_digits_zeros:
  "foldl (\<lambda>a c. 10 * a + digit_val c) a (replicate n CHR ''0'') = a * 10 ^ n"
  by (induction n arbitrary: a) (simp_all add: digit_val_def)

lemma strip_id: "s \<noteq> [] \<Longrightarrow> \<not> is_space (hd s) \<Longrightarrow> \<not> is_space (last s) \<Longrightarrow> strip s = s"
proof -
  assume a: "s \<noteq> []" "\<not> is_space (hd s)" "\<not> is_space (last s)"
  then have "dropWhile is_space s = s"
    by (cases s) simp_all
  moreover from a have "dropWhile is_space (rev s) = rev s"
    by (cases "rev s") (simp_all add: hd_rev)
  ultimately show ?thesis
    by (simp add: strip_def)
qed

lemma digits_span:
  "list_all is_digit ds \<Longrightarrow> \<not> is_digit x \<Longrightarrow>
     takeWhile is_digit (ds @ x # r) = ds \<and> dropWhile is_digit (ds @ x # r) = x # r"
  by (induction ds) simp_all

lemma strip_no_trailing_space:
  assumes "strip s = xs @ [x]"
  shows "\<not> is_space x"
proof -
  define ys where "ys = dropWhile is_space (rev (dropWhile is_space s))"
  from assms have "rev ys = xs @ [x]"
    by (simp add: strip_def ys_def)
  then have "ys = x # rev xs"
    by (metis rev_rev_ident rev_append rev.simps(2) rev.simps(1) append_Nil)
  then show ?thesis
    using hd_dropWhile [of is_space "rev (dropWhile is_space s)"] by (simp add: ys_def)
qed

lemma length_fmt_02d: "n < 100 \<Longrightarrow> length (fmt_02d (int n)) = 2"
proof (cases "n < 10")
  case True
  then show ?thesis
    by (simp add: fmt_02d_def zfill_def digits_of.simps [of n])
next
  case False
  assume "n < 100"
  with False have "n div 10 < 10" by simp
  with False show ?thesis
    by (simp add: fmt_02d_def zfill_def digits_of.simps [of n] digits_of.simps [of "n div 10"])
qed

lemma length_time_text: "t < 600000 \<Longrightarrow> length (time_text t) = 5 \<and> time_text t ! 2 = CHR '':''"
proof -
  assume "t < 600000"
  then have "t div 6000 < 100" by simp
  then have a: "length (fmt_02d (int (t div 6000))) = 2"
    by (rule length_fmt_02d)
  have "(t div 100) mod 60 < 100"
    by (rule less_trans [of _ 60]) simp_all
  then have b: "length (fmt_02d (int ((t div 100) mod 60))) = 2"
    by (rule length_fmt_02d)
  from a b show ?thesis
    by (simp add: time_text_def nth_append)
qed

lemma match_big:
  "match_neverball (strip big_line) = Some (''1'' @ replicate 309 CHR ''0'', ''5'', ''bob'')"
proof -
  define z where "z = replicate 309 CHR ''0''"
  have b: "big_line = (''1'' @ z) @ CHR '' '' # ''5 bob''"
    by (simp only: big_line_def z_def append_assoc append_Cons append_Nil)
  have d: "list_all is_digit (''1'' @ z)"
    by (simp add: z_def is_digit_def list_all_iff)
  have sp: "\<not> is_digit CHR '' ''"
    by (simp add: is_digit_def)
  have hl: "hd big_line = CHR ''1''" "last big_line = CHR ''b''" "big_line \<noteq> []"
    by (simp_all only: b last_appendR last.simps hd_append2 append_Cons append_Nil list.sel)
      simp_all
  have s: "strip big_line = big_line"
    by (rule strip_id) (simp_all add: hl is_space_def)
  have "match_neverball big_line = Some (''1'' @ z, ''5'', ''bob'')"
    unfolding match_neverball_def b
    by (simp only: digits_span [OF d sp] Let_def)
      (simp add: is_digit_def is_space_def)
  then show ?thesis
    by (simp only: s z_def)
qed

lemma nat_of_digits_big: "nat_of_digits (''1'' @ replicate 309 CHR ''0'') = 10 ^ 309"
proof -
  have "digit_val CHR ''1'' = 1"
    by (simp add: digit_val_def)
  then show ?thesis
    by (simp add: nat_of_digits_def nat_of_digits_zeros)
qed

lemma line_key_big: "line_key big_line = Some (''bob'', 10 ^ 309, 5)"
  by (simp only: line_key_def match_big option.case prod.case nat_of_digits_big)
    (simp add: nat_of_digits_def digit_val_def)

lemma line_aborts_big: "line_aborts big_line"
  using big_overflows
  by (simp only: line_aborts_def match_big option.case prod.case nat_of_digits_big) simp

lemma line_aborts_alice: "\<not> line_aborts ''1234 56 alice''"
proof -
  have "(1234 :: nat) < float_limit"
    by (rule small_below_limit) simp
  then show ?thesis
    by (simp add: line_aborts_def match_neverball_def strip_def is_digit_def is_space_def
        nat_of_digits_def digit_val_def Let_def int_max_str_digits_def)
qed

lemma line_aborts_none: "line_key line = None \<Longrightarrow> \<not> line_aborts line"
  using line_aborts_key [of line] by auto

lemma parse_neverball_lines:
  "fst (parse_neverball_log rd clock (Some \<lparr> mtime = m, content = Lines lines \<rparr>) st)
     = (case fst (neverball_loop rd clock lines [] {} st) of Inl e \<Rightarrow> [] | Inr logs \<Rightarrow> logs)"
  by (simp add: parse_neverball_log_def neverball_try_def split: prod.splits sum.splits)


lemma accepted_scores1: "accepted scores1 = [(''alice'', 1234, 56), (''alice'', 1234, 56)]"
  by (simp add: scores1_def accepted_Cons accepted_Nil line_key_alice line_key_easy
      line_key_garbage)

lemma aborts_scores1: "\<not> aborts scores1"
  by (simp add: aborts_def scores1_def line_aborts_alice line_aborts_none line_key_easy
      line_key_garbage)



section \<open>Properties of the racer parser\<close>

lemma rd_mono: "double_rounding rd \<Longrightarrow> x \<le> y \<Longrightarrow> rd x \<le> rd y"
  unfolding double_rounding_def by blast

lemma rd_nonneg: "double_rounding rd \<Longrightarrow> 0 \<le> x \<Longrightarrow> 0 \<le> rd x"
proof -
  assume rd: "double_rounding rd" and x: "0 \<le> x"
  from rd_nat [OF rd, of 0] have "rd 0 = 0"
    by simp
  with rd_mono [OF rd x] show ?thesis
    by simp
qed

lemma rd_le_nat:
  "double_rounding rd \<Longrightarrow> n \<le> 2 ^ 53 \<Longrightarrow> x \<le> real n \<Longrightarrow> rd x \<le> real n"
proof -
  assume rd: "double_rounding rd" and n: "n \<le> 2 ^ 53" and x: "x \<le> real n"
  from rd_mono [OF rd x] rd_nat [OF rd n] show ?thesis
    by simp
qed

lemma etr_time_bad_float: "bad_float tm \<Longrightarrow> etr_time rd tm = Inl ValueError"
  by (simp add: etr_time_def bad_float_def split: option.splits)

lemma etr_time_defined: "\<not> bad_float tm \<Longrightarrow> \<exists>s. etr_time rd tm = Inr s"
  by (simp add: etr_time_def bad_float_def Let_def split: option.splits)

lemma etr_skip:
  "etr_match line = None \<Longrightarrow>
     etr_loop rd clock (line # lines) logs st = etr_loop rd clock lines logs st"
  by simp

lemma etr_step:
  assumes "etr_match line = Some (course, plyr, pts, herr, tm)" and "\<not> etr_line_aborts line"
  shows "\<exists>s. etr_time rd tm = Inr s
           \<and> etr_loop rd clock (line # lines) logs st
               = etr_loop rd clock lines
                   (logs @ [etr_record plyr (replace_underscores course) (nat_of_digits pts)
                              (nat_of_digits herr) s (fst (check_now clock st))])
                   (snd (check_now clock st))"
proof -
  from assms have a: "\<not> int_max_str_digits < length pts"
    "\<not> int_max_str_digits < length herr" "\<not> bad_float tm"
    by (simp_all add: etr_line_aborts_def)
  from a(3) obtain s where s: "etr_time rd tm = Inr s"
    using etr_time_defined by blast
  have "etr_entry rd pts herr tm = Inr (nat_of_digits pts, nat_of_digits herr, s)"
    using a s by (simp add: etr_entry_def py_int_def)
  with assms(1) s show ?thesis
    by (simp add: Let_def)
qed

lemma etr_abort_step:
  assumes "etr_line_aborts line"
  shows "etr_loop rd clock (line # lines) logs st = (Inl ValueError, st)"
proof -
  from assms obtain course plyr pts herr tm where
    m: "etr_match line = Some (course, plyr, pts, herr, tm)"
    and a: "int_max_str_digits < length pts \<or> int_max_str_digits < length herr \<or> bad_float tm"
    by (auto simp: etr_line_aborts_def split: option.splits)
  have "etr_entry rd pts herr tm = Inl ValueError"
  proof (cases "bad_float tm")
    case True
    then show ?thesis
      by (simp add: etr_entry_def py_int_def etr_time_bad_float)
  next
    case False
    with a show ?thesis
      by (auto simp: etr_entry_def py_int_def)
  qed
  with m show ?thesis
    by simp
qed

lemma etr_aborts_none: "etr_match line = None \<Longrightarrow> \<not> etr_line_aborts line"
  by (simp add: etr_line_aborts_def)

declare etr_loop.simps(2) [simp del]

lemma etr_loop_ok:
  "\<not> list_ex etr_line_aborts lines \<Longrightarrow>
     \<exists>L st'. etr_loop rd clock lines logs st = (Inr (logs @ L), st')
            \<and> list_all2 (is_etr_record_of rd) (List.map_filter etr_match lines) L"
proof (induction lines arbitrary: logs st)
  case Nil
  then show ?case by (simp add: map_filter_simps)
next
  case (Cons line lines)
  then have na: "\<not> etr_line_aborts line" and rest: "\<not> list_ex etr_line_aborts lines"
    by simp_all
  show ?case
  proof (cases "etr_match line")
    case None
    with Cons.IH [OF rest, of logs st] show ?thesis
      by (simp add: map_filter_simps etr_skip)
  next
    case (Some m)
    obtain course plyr pts herr tm where m: "m = (course, plyr, pts, herr, tm)"
      by (cases m)
    from etr_step [OF Some [unfolded m] na, of rd clock lines logs st]
    obtain s where s: "etr_time rd tm = Inr s"
      and step: "etr_loop rd clock (line # lines) logs st
               = etr_loop rd clock lines
                   (logs @ [etr_record plyr (replace_underscores course) (nat_of_digits pts)
                              (nat_of_digits herr) s (fst (check_now clock st))])
                   (snd (check_now clock st))"
      by blast
    define r where "r = etr_record plyr (replace_underscores course) (nat_of_digits pts)
                          (nat_of_digits herr) s (fst (check_now clock st))"
    from Cons.IH [OF rest, of "logs @ [r]" "snd (check_now clock st)"]
    obtain L st' where
      L: "etr_loop rd clock lines (logs @ [r]) (snd (check_now clock st))
            = (Inr ((logs @ [r]) @ L), st')"
      "list_all2 (is_etr_record_of rd) (List.map_filter etr_match lines) L"
      by blast
    have "is_etr_record_of rd m r"
      using s by (auto simp: is_etr_record_of_def m r_def)
    with L Some step show ?thesis
      by (simp add: map_filter_simps r_def)
  qed
qed

lemma etr_loop_abort:
  "list_ex etr_line_aborts lines \<Longrightarrow> fst (etr_loop rd clock lines logs st) = Inl ValueError"
proof (induction lines arbitrary: logs st)
  case Nil
  then show ?case by simp
next
  case (Cons line lines)
  show ?case
  proof (cases "etr_line_aborts line")
    case True
    then show ?thesis
      by (simp add: etr_abort_step)
  next
    case False
    with Cons.prems have "list_ex etr_line_aborts lines" by simp
    then have ih: "\<And>logs st. fst (etr_loop rd clock lines logs st) = Inl ValueError"
      by (rule Cons.IH)
    show ?thesis
    proof (cases "etr_match line")
      case None
      with ih show ?thesis by (simp add: etr_skip)
    next
      case (Some m)
      obtain course plyr pts herr tm where m: "m = (course, plyr, pts, herr, tm)"
        by (cases m)
      from etr_step [OF Some [unfolded m] False, of rd clock lines logs st]
      obtain s where
        step: "etr_loop rd clock (line # lines) logs st
               = etr_loop rd clock lines
                   (logs @ [etr_record plyr (replace_underscores course) (nat_of_digits pts)
                              (nat_of_digits herr) s (fst (check_now clock st))])
                   (snd (check_now clock st))"
        by blast
      show ?thesis
        by (simp only: step ih)
    qed
  qed
qed

lemma parse_etr_lines:
  "fst (parse_etr_log rd clock (Some \<lparr> mtime = m, content = Lines lines \<rparr>) st)
     = (case fst (etr_loop rd clock lines [] st) of Inl e \<Rightarrow> [] | Inr logs \<Rightarrow> logs)"
  by (simp add: parse_etr_log_def etr_try_def split: prod.splits sum.splits)

lemma match_tag_here_shape:
  assumes "match_tag_here tag cls s = Some v"
  shows "\<exists>w post. s = tag @ w @ v @ post \<and> w \<noteq> [] \<and> list_all is_space w
           \<and> v \<noteq> [] \<and> list_all cls v"
proof -
  define r where "r = drop (length tag) s"
  from assms have t: "take (length tag) s = tag" and w: "takeWhile is_space r \<noteq> []"
    and v: "v = takeWhile cls (dropWhile is_space r)" and vn: "v \<noteq> []"
    by (auto simp: match_tag_here_def Let_def r_def split: if_splits)
  have "s = tag @ r"
    using t by (metis append_take_drop_id r_def)
  moreover have "r = takeWhile is_space r @ v @ dropWhile cls (dropWhile is_space r)"
    by (simp add: v)
  ultimately have "s = tag @ takeWhile is_space r @ v @ dropWhile cls (dropWhile is_space r)"
    by simp
  moreover have "list_all is_space (takeWhile is_space r)" "list_all cls v"
    by (auto simp: v list_all_iff dest: set_takeWhileD)
  ultimately show ?thesis
    using w vn by blast
qed

lemma search_tag_shape:
  "search_tag tag cls line = Some v \<Longrightarrow>
     \<exists>pre w post. line = pre @ tag @ w @ v @ post \<and> w \<noteq> [] \<and> list_all is_space w
        \<and> v \<noteq> [] \<and> list_all cls v"
proof (induction line)
  case Nil
  then show ?case by simp
next
  case (Cons x xs)
  show ?case
  proof (cases "match_tag_here tag cls (x # xs)")
    case (Some u)
    with Cons.prems have "u = v" by simp
    with Some match_tag_here_shape [of tag cls "x # xs" v] show ?thesis
      by (metis append_Nil)
  next
    case None
    with Cons.prems have "search_tag tag cls xs = Some v" by simp
    from Cons.IH [OF this] obtain pre w post where
      "xs = pre @ tag @ w @ v @ post" "w \<noteq> []" "list_all is_space w" "v \<noteq> []" "list_all cls v"
      by blast
    then have "x # xs = (x # pre) @ tag @ w @ v @ post" by simp
    with \<open>w \<noteq> []\<close> \<open>list_all is_space w\<close> \<open>v \<noteq> []\<close> \<open>list_all cls v\<close> show ?thesis
      by blast
  qed
qed

lemma length_zfill2: "n < 100 \<Longrightarrow> length (zfill 2 (digits_of n)) = 2"
proof (cases "n < 10")
  case True
  then show ?thesis
    by (simp add: zfill_def digits_of.simps [of n])
next
  case False
  assume "n < 100"
  with False have "n div 10 < 10" by simp
  with False show ?thesis
    by (simp add: zfill_def digits_of.simps [of n] digits_of.simps [of "n div 10"])
qed

lemma length_digits_le2: "n < 100 \<Longrightarrow> length (digits_of n) \<le> 2"
proof (cases "n < 10")
  case True
  then show ?thesis
    by (simp add: digits_of.simps [of n])
next
  case False
  assume "n < 100"
  with False have "n div 10 < 10" by simp
  with False show ?thesis
    by (simp add: digits_of.simps [of n] digits_of.simps [of "n div 10"])
qed

lemma round_half_even_bounds:
  "\<lfloor>x\<rfloor> \<le> round_half_even x" "round_half_even x \<le> \<lfloor>x\<rfloor> + 1"
  by (simp_all add: round_half_even_def)

lemma fmt_05_2f_shape:
  assumes "0 \<le> x" "x < 60"
  shows "\<exists>a b. fmt_05_2f x = a @ ''.'' @ b \<and> length a = 2 \<and> length b = 2"
proof -
  define q where "q = nat (round_half_even (x * 100))"
  from assms have "x * 100 < 6000" by simp
  then have "\<lfloor>x * 100\<rfloor> < 6000" by (simp add: floor_less_iff)
  with round_half_even_bounds(2) [of "x * 100"] have "round_half_even (x * 100) \<le> 6000"
    by linarith
  then have q: "q \<le> 6000" by (simp add: q_def)
  then have "q div 100 < 100" by simp
  then have a: "length (digits_of (q div 100)) \<le> 2"
    and a2: "length (zfill 2 (digits_of (q div 100))) = 2"
    by (rule length_digits_le2, rule length_zfill2)
  have "q mod 100 < 100" by simp
  then have b: "length (zfill 2 (digits_of (q mod 100))) = 2"
    by (rule length_zfill2)
  have "fmt_05_2f x
          = zfill 2 (digits_of (q div 100)) @ ''.'' @ zfill 2 (digits_of (q mod 100))"
    using a b unfolding fmt_05_2f_def Let_def q_def [symmetric]
    by (simp add: zfill_def [of 5] zfill_def [of 2 "digits_of (q div 100)"])
  with a2 b show ?thesis by blast
qed

lemma dec_float_nonneg: "dec_float tm = Some t \<Longrightarrow> 0 \<le> t"
  by (auto simp: dec_float_def Let_def split: if_splits)

lemma etr_time_shape:
  assumes rd: "double_rounding rd" and "etr_time rd tm = Inr s"
  shows "\<exists>v. dec_float tm = Some v \<and> v < real float_limit \<and> 0 \<le> rd v
           \<and> (rd v \<le> 2 ^ 53 \<longrightarrow>
                s = fmt_02d \<lfloor>rd v / 60\<rfloor> @ '':''
                      @ fmt_05_2f (rd v - 60 * of_int \<lfloor>rd v / 60\<rfloor>))
           \<and> (rd v < 6000 \<longrightarrow> (\<exists>mm ss cc. s = mm @ '':'' @ ss @ ''.'' @ cc
                 \<and> length mm = 2 \<and> length ss = 2 \<and> length cc = 2))
           \<and> (v \<le> 5999 \<longrightarrow> rd v < 6000)"
proof -
  from assms(2) obtain v where v: "dec_float tm = Some v" and lim: "v < real float_limit"
    and s: "s = fmt_02d (py_trunc (py_floordiv rd (rd v) 60)) @ '':''
                  @ fmt_05_2f (py_mod (rd v) 60)"
    by (auto simp: etr_time_def Let_def split: option.splits if_splits)
  define t where "t = rd v"
  from v have "0 \<le> v" by (rule dec_float_nonneg)
  with rd have nn: "0 \<le> t"
    unfolding t_def by (rule rd_nonneg)
  then have fl: "0 \<le> \<lfloor>t / 60\<rfloor>" by simp
  have s': "s = fmt_02d \<lfloor>t / 60\<rfloor> @ '':'' @ fmt_05_2f (t - 60 * of_int \<lfloor>t / 60\<rfloor>)"
    if "t \<le> 2 ^ 53"
  proof -
    from fl have "py_trunc (py_floordiv rd t 60) = \<lfloor>t / 60\<rfloor>"
      by (simp add: py_floordiv_60 [OF rd nn that] py_trunc_def)
    then show ?thesis
      by (simp add: s t_def [symmetric] py_mod_def py_fmod_def)
  qed
  have shape: "\<exists>mm ss cc. s = mm @ '':'' @ ss @ ''.'' @ cc
                 \<and> length mm = 2 \<and> length ss = 2 \<and> length cc = 2" if "t < 6000"
  proof -
    from that have "t \<le> 2 ^ 53" by simp
    note s'' = s' [OF this]
    from that have "t / 60 < 100" by simp
    then have "\<lfloor>t / 60\<rfloor> < 100" by (simp add: floor_less_iff)
    with fl have "nat \<lfloor>t / 60\<rfloor> < 100" by linarith
    then have "length (fmt_02d (int (nat \<lfloor>t / 60\<rfloor>))) = 2"
      by (rule length_fmt_02d)
    with fl have a: "length (fmt_02d \<lfloor>t / 60\<rfloor>) = 2" by simp
    have "real_of_int \<lfloor>t / 60\<rfloor> \<le> t / 60" "t / 60 < real_of_int \<lfloor>t / 60\<rfloor> + 1"
      by linarith+
    then have "0 \<le> t - 60 * of_int \<lfloor>t / 60\<rfloor>" "t - 60 * of_int \<lfloor>t / 60\<rfloor> < 60"
      by (simp_all add: field_simps)
    from fmt_05_2f_shape [OF this] obtain ss cc where
      "fmt_05_2f (t - 60 * of_int \<lfloor>t / 60\<rfloor>) = ss @ ''.'' @ cc" "length ss = 2" "length cc = 2"
      by blast
    with a s'' show ?thesis by blast
  qed
  have small: "t < 6000" if "v \<le> 5999"
  proof -
    have "rd v \<le> real 5999"
      using rd by (rule rd_le_nat) (simp_all add: that)
    then show ?thesis
      by (simp add: t_def)
  qed
  from v lim nn s' shape small show ?thesis
    unfolding t_def by blast
qed

lemma etr_time_good: "etr_time exact ''75.5'' = Inr ''01:15.50''"
proof -
  have d: "dec_float ''75.5'' = Some (151 / 2)"
    by (simp add: dec_float_def is_digit_def nat_of_digits_def digit_val_def)
  have "(76::nat) < float_limit"
    by (rule small_below_limit) simp
  then have l: "\<not> real float_limit * 2 \<le> 151"
    by linarith
  have e: "exact (151 / 2) = 151 / 2"
    by (simp add: exact_def)
  have "py_floordiv exact (151 / 2) 60 = of_int \<lfloor>(151 / 2 :: real) / 60\<rfloor>"
    by (rule py_floordiv_60 [OF double_rounding_exact]) simp_all
  moreover have f: "\<lfloor>(151 / 2 :: real) / 60\<rfloor> = 1"
    by (simp add: floor_eq_iff)
  ultimately have q: "py_floordiv exact (151 / 2) 60 = 1"
    by simp
  have m: "py_mod (151 / 2) 60 = 31 / 2"
    using f by (simp add: py_mod_def py_fmod_def)
  have r: "round_half_even 1550 = 1550"
    by (simp add: round_half_even_def)
  show ?thesis
    by (simp add: etr_time_def d l e q m py_trunc_def fmt_02d_def
        fmt_05_2f_def r zfill_def digits_of.simps)
qed

lemma bad_float_samples: "bad_float ''1.2.3''" "\<not> bad_float ''75.5''"
proof -
  show "bad_float ''1.2.3''"
    by (simp add: bad_float_def dec_float_def is_digit_def)
  have d: "dec_float ''75.5'' = Some (151 / 2)"
    by (simp add: dec_float_def is_digit_def nat_of_digits_def digit_val_def)
  have "(76::nat) < float_limit"
    by (rule small_below_limit) simp
  then have l: "\<not> real float_limit * 2 \<le> 151"
    by linarith
  then show "\<not> bad_float ''75.5''"
    by (simp add: bad_float_def d)
qed

lemmas etr_eval =
  etr_match_def match_tag_here_def non_space_def is_space_def is_digit_def digit_or_point_def

lemma etr_match_good:
  "etr_match etr_good = Some (''bunny_hill'', ''tux'', ''120'', ''7'', ''75.5'')"
  by (simp add: etr_good_def etr_eval)

lemma etr_match_bad_time:
  "etr_match etr_bad_time = Some (''bunny_hill'', ''tux'', ''120'', ''7'', ''1.2.3'')"
  by (simp add: etr_bad_time_def etr_eval)

lemma etr_no_herring_search: "search_tag ''[herr]'' is_digit etr_no_herring = None"
  by (simp add: etr_no_herring_def match_tag_here_def)

lemma etr_no_herring_others:
  "search_tag ''[course]'' non_space etr_no_herring = Some ''bunny_hill''"
  "search_tag ''[plyr]'' non_space etr_no_herring = Some ''tux''"
  "search_tag ''[pts]'' is_digit etr_no_herring = Some ''120''"
  "search_tag ''[time]'' digit_or_point etr_no_herring = Some ''75.5''"
  by (simp_all add: etr_no_herring_def etr_eval)


lemma etr_match_no_herring: "etr_match etr_no_herring = None"
  by (simp add: etr_match_def etr_no_herring_search split: option.splits)

lemma etr_aborts_samples:
  "\<not> etr_line_aborts etr_good" "\<not> etr_line_aborts etr_no_herring"
  "etr_line_aborts etr_bad_time"
  by (simp_all add: etr_line_aborts_def etr_match_good etr_match_bad_time etr_match_no_herring
      bad_float_samples int_max_str_digits_def)



section \<open>Properties of the delivery sink and the poller\<close>

lemma outcomes_Suc: "outcomes net n (Suc k) = net n # outcomes net (Suc n) k"
  by (simp add: outcomes_def upt_rec)

lemma outcomes_0: "outcomes net n 0 = []"
  by (simp add: outcomes_def)

lemma send_loop_spec:
  "requests (snd (send_loop net game logs c sk)) = requests sk @ map (Pair game) logs
   \<and> console (snd (send_loop net game logs c sk))
       = console sk @ failures game (outcomes net (length (requests sk)) (length logs))
   \<and> success_count (fst (send_loop net game logs c sk))
       = success_count c
         + count_list (outcomes net (length (requests sk)) (length logs)) (Response 200)
   \<and> duplicate_count (fst (send_loop net game logs c sk))
       = duplicate_count c
         + count_list (outcomes net (length (requests sk)) (length logs)) (Response 409)
   \<and> anomaly_count (fst (send_loop net game logs c sk))
       = anomaly_count c
         + count_list (accepted_flags logs (outcomes net (length (requests sk)) (length logs)))
             True"
proof (induction logs arbitrary: c sk)
  case Nil
  then show ?case
    by (simp add: outcomes_0 accepted_flags_def)
next
  case (Cons entry logs)
  define sk1 where "sk1 = sk\<lparr>requests := requests sk @ [(game, entry)]\<rparr>"
  have l: "length (requests sk1) = Suc (length (requests sk))"
    "requests sk1 = requests sk @ [(game, entry)]" "console sk1 = console sk"
    by (simp_all add: sk1_def)
  note ih = Cons.IH [of _ sk1, unfolded l] Cons.IH [of _ "sk1\<lparr>console := console sk1 @ [SendFailed game e]\<rparr>" for e, simplified, unfolded l]
  show ?case
  proof (cases "net (length (requests sk))")
    case (Response status_code)
    then show ?thesis
      using ih(1)
      by (simp add: Let_def outcomes_Suc accepted_flags_def sk1_def [symmetric])
  next
    case ConnectionError
    then show ?thesis
      using ih(1)
      by (simp add: Let_def outcomes_Suc accepted_flags_def sk1_def [symmetric])
  next
    case (OtherException e)
    then show ?thesis
      using ih(2) [of _ e]
      by (simp add: Let_def outcomes_Suc accepted_flags_def sk1_def [symmetric] l(3))
  qed
qed



text \<open>
  \<^bold>\<open>Claim C6, amended.\<close> For every batch, one request is issued for each record, in
  order, and none twice. The accepted count is the number of requests answered with status
  200, the duplicate count the number answered with 409, and the anomaly tally the number
  of accepted records whose anomaly flag is set. A connection failure changes no counter
  and prints nothing; any other exception prints one line and changes no counter; a
  response with any other status changes no counter and prints nothing. The function
  always returns, and prints the summary line exactly when the accepted or the duplicate
  count is not zero.
\<close>

theorem send_to_api_tally:
  "requests (snd (send_to_api net game logs sk)) = requests sk @ map (Pair game) logs
   \<and> success_count (fst (send_to_api net game logs sk))
       = count_list (outcomes net (length (requests sk)) (length logs)) (Response 200)
   \<and> duplicate_count (fst (send_to_api net game logs sk))
       = count_list (outcomes net (length (requests sk)) (length logs)) (Response 409)
   \<and> anomaly_count (fst (send_to_api net game logs sk))
       = count_list (accepted_flags logs (outcomes net (length (requests sk)) (length logs)))
           True
   \<and> console (snd (send_to_api net game logs sk))
       = console sk @ failures game (outcomes net (length (requests sk)) (length logs))
         @ (if success_count (fst (send_to_api net game logs sk)) > 0
               \<or> duplicate_count (fst (send_to_api net game logs sk)) > 0
            then [Status game (summary (fst (send_to_api net game logs sk)))] else [])"
  using send_loop_spec [of net game logs
      "\<lparr> success_count = 0, anomaly_count = 0, duplicate_count = 0 \<rparr>" sk]
  by (simp add: send_to_api_def Let_def)

lemma outcomes_mixed:
  "outcomes net_mixed 0 (Suc (Suc (Suc (Suc 0))))
     = [Response 200, Response 409, ConnectionError, OtherException ''timed out'']"
  by (simp add: outcomes_Suc outcomes_0 net_mixed_def)

text \<open>
  A batch of four records answered with 200, 409, a connection failure and a timeout:
  one accepted (with its anomaly flag set), one duplicate, one line for the timeout.
\<close>

theorem send_to_api_tally_witness:
  "fst (send_to_api net_mixed ''neverball'' [rec_a, rec_b, rec_a, rec_b] no_sink)
     = \<lparr> success_count = 1, anomaly_count = 1, duplicate_count = 1 \<rparr>
   \<and> requests (snd (send_to_api net_mixed ''neverball'' [rec_a, rec_b, rec_a, rec_b] no_sink))
       = [(''neverball'', rec_a), (''neverball'', rec_b), (''neverball'', rec_a),
          (''neverball'', rec_b)]
   \<and> console (snd (send_to_api net_mixed ''neverball'' [rec_a, rec_b, rec_a, rec_b] no_sink))
       = [SendFailed ''neverball'' ''timed out'',
          Status ''neverball'' [Saved 1, Duplicates 1, Anomalies 1]]"
proof -
  have f: "accepted_flags [rec_a, rec_b, rec_a, rec_b]
             [Response 200, Response 409, ConnectionError, OtherException ''timed out'']
           = [True]"
    by (simp add: accepted_flags_def rec_a_def neverball_record_def)
  from send_to_api_tally [of net_mixed "''neverball''" "[rec_a, rec_b, rec_a, rec_b]" no_sink]
  have c: "success_count (fst (send_to_api net_mixed ''neverball'' [rec_a, rec_b, rec_a, rec_b] no_sink)) = 1"
    "duplicate_count (fst (send_to_api net_mixed ''neverball'' [rec_a, rec_b, rec_a, rec_b] no_sink)) = 1"
    "anomaly_count (fst (send_to_api net_mixed ''neverball'' [rec_a, rec_b, rec_a, rec_b] no_sink)) = 1"
    and r: "requests (snd (send_to_api net_mixed ''neverball'' [rec_a, rec_b, rec_a, rec_b] no_sink))
       = [(''neverball'', rec_a), (''neverball'', rec_b), (''neverball'', rec_a),
          (''neverball'', rec_b)]"
    by (simp_all add: no_sink_def outcomes_mixed f)
  from send_to_api_tally [of net_mixed "''neverball''" "[rec_a, rec_b, rec_a, rec_b]" no_sink] c
  have "console (snd (send_to_api net_mixed ''neverball'' [rec_a, rec_b, rec_a, rec_b] no_sink))
       = [SendFailed ''neverball'' ''timed out'',
          Status ''neverball'' [Saved 1, Duplicates 1, Anomalies 1]]"
    by (simp add: no_sink_def outcomes_mixed summary_def)
  with c r show ?thesis
    by (cases "fst (send_to_api net_mixed ''neverball'' [rec_a, rec_b, rec_a, rec_b] no_sink)")
      simp
qed

text \<open>
  \<^bold>\<open>Claim C6\<close> fails as stated for a failure that is a response: a record answered
  with status 500 is neither accepted nor a duplicate, and nothing is printed for it.
\<close>

theorem send_to_api_unlogged_counterexample:
  "net500 0 = Response 500
   \<and> fst (send_to_api net500 ''etr'' [rec_a] no_sink)
       = \<lparr> success_count = 0, anomaly_count = 0, duplicate_count = 0 \<rparr>
   \<and> console (snd (send_to_api net500 ''etr'' [rec_a] no_sink)) = []"
  by (simp add: send_to_api_def net500_def no_sink_def Let_def)




lemma notices_append: "notices (ps @ qs) = notices ps @ notices qs"
  by (induction ps rule: notices.induct) simp_all

lemma notices_failures: "notices (failures game os) = []"
  by (induction game os rule: failures.induct) simp_all

lemma send_to_api_frame:
  "requests (snd (send_to_api net game logs sk)) = requests sk @ map (Pair game) logs"
  "notices (console (snd (send_to_api net game logs sk))) = notices (console sk)"
  using send_loop_spec [of net game logs
      "\<lparr> success_count = 0, anomaly_count = 0, duplicate_count = 0 \<rparr>" sk]
  by (simp_all add: send_to_api_def Let_def notices_append notices_failures)

lemma watch_game_unchanged: "\<not> changed e w game \<Longrightarrow> watch_game e w game = w"
  by (auto simp: changed_def watch_game_def Let_def split: option.splits)

lemma watch_game_changed:
  assumes "changed e w game"
  shows "last_modified (watch_game e w game) = (last_modified w)(game := mtime_of e game)"
    and "sensor (watch_game e w game) = snd (parse_game e game (sensor w))"
    and "requests (outbox (watch_game e w game))
           = requests (outbox w) @ map (Pair game) (fst (parse_game e game (sensor w)))"
    and "notices (console (outbox (watch_game e w game)))
           = notices (console (outbox w)) @ [game]"
  using assms
  by (auto simp: changed_def watch_game_def mtime_of_def Let_def send_to_api_frame
      notices_append split: option.splits)

lemma changed_cong:
  "last_modified w' g = last_modified w g \<Longrightarrow> changed e w' g = changed e w g"
  by (simp add: changed_def split: option.splits)

lemma watch_fold:
  "distinct gs \<Longrightarrow>
     last_modified (foldl (watch_game e) w gs) g
       = (if g \<in> set gs \<and> changed e w g then mtime_of e g else last_modified w g)
     \<and> notices (console (outbox (foldl (watch_game e) w gs)))
       = notices (console (outbox w)) @ filter (changed e w) gs"
proof (induction gs arbitrary: w)
  case Nil
  then show ?case by simp
next
  case (Cons x gs)
  define w' where "w' = watch_game e w x"
  have other: "last_modified w' y = last_modified w y" if "y \<noteq> x" for y
    using that watch_game_unchanged [of e w x] watch_game_changed(1) [of e w x]
    by (cases "changed e w x") (simp_all add: w'_def)
  from Cons.prems have d: "distinct gs" "x \<notin> set gs" by simp_all
  have same: "changed e w' y = changed e w y" if "y \<in> set gs" for y
    using that d other [of y] by (intro changed_cong) auto
  then have f: "filter (changed e w') gs = filter (changed e w) gs"
    by (intro filter_cong) simp_all
  have here: "last_modified w' x = (if changed e w x then mtime_of e x else last_modified w x)"
    "notices (console (outbox w')) = notices (console (outbox w)) @ (if changed e w x then [x] else [])"
    using watch_game_unchanged [of e w x] watch_game_changed(1,4) [of e w x]
    by (cases "changed e w x"; simp add: w'_def)+
  from Cons.IH [OF d(1), of w']
  have ih1: "last_modified (foldl (watch_game e) w' gs) g
               = (if g \<in> set gs \<and> changed e w' g then mtime_of e g else last_modified w' g)"
    and ih2: "notices (console (outbox (foldl (watch_game e) w' gs)))
               = notices (console (outbox w')) @ filter (changed e w') gs"
    by simp_all
  have 1: "last_modified (foldl (watch_game e) w (x # gs)) g
             = (if g \<in> set (x # gs) \<and> changed e w g then mtime_of e g else last_modified w g)"
  proof (cases "g = x")
    case True
    with d ih1 here(1) show ?thesis
      by (simp add: w'_def [symmetric])
  next
    case False
    show ?thesis
    proof (cases "g \<in> set gs")
      case True
      with False ih1 same [of g] other [of g] show ?thesis
        by (simp add: w'_def [symmetric])
    next
      case g: False
      with False ih1 other [of g] show ?thesis
        by (simp add: w'_def [symmetric])
    qed
  qed
  have 2: "notices (console (outbox (foldl (watch_game e) w (x # gs))))
             = notices (console (outbox w)) @ filter (changed e w) (x # gs)"
    using ih2 here(2) f by (simp add: w'_def [symmetric])
  from 1 2 show ?case by simp
qed




lemma changed_scores:
  "changed env_scores watcher0 ''neverball''"
  "\<not> changed env_scores watcher0 ''supertux''"
  "\<not> changed env_scores watcher0 ''etr''"
  by (simp_all add: changed_def env_scores_def watcher0_def)

lemma watcher0_fields:
  "last_modified watcher0 g = 0" "sensor watcher0 = (init_detector, 0)"
  "outbox watcher0 = no_sink" "requests no_sink = []" "console no_sink = []"
  by (simp_all add: watcher0_def no_sink_def)

lemma env_scores_fields:
  "files env_scores ''neverball'' = Some \<lparr> mtime = 5, content = Lines scores1 \<rparr>"
  "time_at env_scores = clock0" "rounding env_scores = exact"
  by (simp_all add: env_scores_def)




end
